theory Spec2Isabelle
  imports Main "HOL-Library.AList" "HOL-Library.Sublist"
begin

section \<open>The structural path resolver of move2kube (internal/newparameterizer/common/utils.go)\<close>

subsection \<open>Data model\<close>

text \<open>
  A configuration tree is a Go \<^verbatim>\<open>interface{}\<close> value: a \<^verbatim>\<open>map[string]interface{}\<close>
  (\<^verbatim>\<open>mapT\<close>), a \<^verbatim>\<open>[]interface{}\<close>, or anything else. The type assertions of the
  source (\<^verbatim>\<open>.(mapT)\<close>, \<^verbatim>\<open>.([]interface{})\<close>, \<^verbatim>\<open>.(string)\<close>) become pattern matching.
  A Go map is \<open>None\<close>, the nil map, or \<open>Some entries\<close>, an association list read with
  \<open>map_of\<close> and written with \<open>AList.update\<close>. Reading the nil map finds nothing
  (\<open>mapGet\<close>); writing into it panics (\<^verbatim>\<open>assignment to entry in nil map\<close>), and a call that
  panics has the outcome \<open>Panics\<close>. A nil map held in an \<^verbatim>\<open>interface{}\<close> is \<open>Mapping None\<close>:
  the assertion \<^verbatim>\<open>.(mapT)\<close> succeeds on it. \<open>Str\<close>, \<open>Num\<close> and \<open>Bool\<close> are the scalars,
  \<open>Null\<close> is the nil interface value.
\<close>

datatype node =
    Mapping "(string \<times> node) list option"
  | Sequence "node list"
  | Str string
  | Num int
  | Bool bool
  | Null

type_synonym mapT = "(string \<times> node) list option"

definition mapGet :: "mapT \<Rightarrow> string \<Rightarrow> node option" where
  "mapGet valueMap subKey = (case valueMap of None \<Rightarrow> None | Some entries \<Rightarrow> map_of entries subKey)"

datatype 'a run = Panics | Returns 'a

text \<open>One constructor for each \<^verbatim>\<open>fmt.Errorf\<close> of the source.\<close>

datatype error =
    SubKeyNotFound string         \<comment> \<open>GetRecurse: failed to find the subkey in the map\<close>
  | NotAnIndex string             \<comment> \<open>GetRecurse: failed to interpret the subkey as an index\<close>
  | IndexOutOfRange nat           \<comment> \<open>GetRecurse: the index is out of range for the slice\<close>
  | NotMapOrSlice                 \<comment> \<open>GetRecurse: the value is not a map or slice\<close>
  | InvalidSubKey string          \<comment> \<open>GetRecurse: the subkey is invalid\<close>
  | ExpectedSlice                 \<comment> \<open>GetRecurse: expected a slice of objects\<close>
  | ExpectedObject                \<comment> \<open>GetRecurse: expected all the elements of the slice to be object\<close>
  | ExpectedString                \<comment> \<open>GetRecurse: expected the value to be a string\<close>
  | EmptyKey                      \<comment> \<open>Set, SetCreatingNew: the key is an empty string\<close>
  | NoSubKeys                     \<comment> \<open>Set, SetCreatingNew: no sub keys found for the key\<close>
  | SubKeyNotPresent string       \<comment> \<open>Set: the sub key is not present in the map\<close>
  | InvalidIndex string           \<comment> \<open>Set: the sub key is not a valid index into the array\<close>
  | ReachedScalar string          \<comment> \<open>Set: the sub key cannot be matched because we reached a scalar\<close>
  | ExpectedMapOrArray            \<comment> \<open>Set: expected a map or array type\<close>

text \<open>
  \<^verbatim>\<open>RT.Matches\<close> is a Go map, a reference: two results may hold the same map object. The
  bindings maps that one call allocates live in a store, a list of association lists, and
  \<open>Matches\<close> is the position of the map in the store (\<open>None\<close> is the nil map).
  \<^verbatim>\<open>RT.Key\<close> is copied when a result is emitted (\<^verbatim>\<open>make\<close> and \<^verbatim>\<open>copy\<close>), so it is a value.
\<close>

type_synonym bindings = "(string \<times> string) list"
type_synonym store = "bindings list"

record RT =
  Key :: "string list"
  Value :: node
  Matches :: "nat option"

subsection \<open>The regular expressions\<close>

definition isDigit :: "char \<Rightarrow> bool" where
  "isDigit c = (c \<in> set ''0123456789'')"

text \<open>\<^verbatim>\<open>\w\<close> of Go's regexp: ASCII letters, digits and the underscore.\<close>

definition isWord :: "char \<Rightarrow> bool" where
  "isWord c = (c \<in> set ''0123456789ABCDEFGHIJKLMNOPQRSTUVWXYZ_abcdefghijklmnopqrstuvwxyz'')"

text \<open>
  \<^verbatim>\<open>arrayIndexRegex = ^\[(\d+)\]$\<close>: the result is the first submatch when the string matches.
\<close>

definition arrayIndexRegex :: "string \<Rightarrow> string option" where
  "arrayIndexRegex s =
     (case s of
        [] \<Rightarrow> None
      | c # r \<Rightarrow>
          if c = CHR ''['' \<and> r \<noteq> [] \<and> last r = CHR '']'' \<and> butlast r \<noteq> []
             \<and> list_all isDigit (butlast r)
          then Some (butlast r) else None)"

text \<open>
  \<^verbatim>\<open>complexSubKeyRegex = ^\[(\w+:)?(\w+)(=.+)?\]$\<close>. After the word of the second group only
  \<^verbatim>\<open>=\<close> or the closing bracket can follow, and a word holds no colon, so the match is unique:
  the three submatches are returned (an optional group that took no part is the empty string,
  as in \<^verbatim>\<open>FindAllStringSubmatch\<close>). The dot of \<^verbatim>\<open>.+\<close> matches every character but the newline.
\<close>

definition complexTail :: "string \<Rightarrow> string \<Rightarrow> string \<Rightarrow> (string \<times> string \<times> string) option" where
  "complexTail g1 g2 r =
     (if r = '']'' then Some (g1, g2, [])
      else (case r of
              [] \<Rightarrow> None
            | c # v \<Rightarrow>
                if c = CHR ''='' \<and> v \<noteq> [] \<and> last v = CHR '']'' \<and> butlast v \<noteq> []
                   \<and> CHR 0x0A \<notin> set (butlast v)
                then Some (g1, g2, CHR ''='' # butlast v) else None))"

definition complexSubKeyRegex :: "string \<Rightarrow> (string \<times> string \<times> string) option" where
  "complexSubKeyRegex s =
     (case s of
        [] \<Rightarrow> None
      | c # r \<Rightarrow>
          if c \<noteq> CHR ''['' then None
          else let w1 = takeWhile isWord r; r1 = dropWhile isWord r in
            if w1 = [] then None
            else (case r1 of
                    [] \<Rightarrow> None
                  | d # r2 \<Rightarrow>
                      if d = CHR '':'' then
                        (let w2 = takeWhile isWord r2; r3 = dropWhile isWord r2 in
                         if w2 = [] then None else complexTail (w1 @ '':'') w2 r3)
                      else complexTail [] w1 r1))"

definition isNormal :: "string \<Rightarrow> bool" where
  "isNormal k = (CHR ''['' \<notin> set k \<or> arrayIndexRegex k \<noteq> None)"

definition TrimPrefix :: "string \<Rightarrow> string \<Rightarrow> string" where
  "TrimPrefix s p = (if prefix p s then drop (length p) s else s)"

definition TrimSuffix :: "string \<Rightarrow> string \<Rightarrow> string" where
  "TrimSuffix s p = (if suffix p s then take (length s - length p) s else s)"

subsection \<open>Integers and their text\<close>

text \<open>
  \<^verbatim>\<open>cast.ToIntE\<close> of a string is \<^verbatim>\<open>strconv.ParseInt(s, 0, 0)\<close>: base 0 reads a leading
  \<^verbatim>\<open>0\<close> as the octal prefix, and the value must fit the 64-bit \<^verbatim>\<open>int\<close>. \<open>getIndex\<close> calls it
  on the digits of the first submatch only, so the model covers strings of decimal digits
  and fails on anything else.
\<close>

definition digitVal :: "char \<Rightarrow> int" where
  "digitVal c = of_char c - 48"

fun parseDigits :: "int \<Rightarrow> int \<Rightarrow> string \<Rightarrow> int option" where
  "parseDigits base n [] = Some n"
| "parseDigits base n (c # cs) =
     (if isDigit c \<and> digitVal c < base then parseDigits base (n * base + digitVal c) cs
      else None)"

definition ToIntE :: "string \<Rightarrow> int option" where
  "ToIntE s =
     (case s of
        [] \<Rightarrow> None
      | c # cs \<Rightarrow>
          (case (if c = CHR ''0'' then parseDigits 8 0 cs else parseDigits 10 0 s) of
             None \<Rightarrow> None
           | Some n \<Rightarrow> if n < 2 ^ 63 then Some n else None))"

definition getIndex :: "string \<Rightarrow> nat option" where
  "getIndex key =
     (case arrayIndexRegex key of
        None \<Rightarrow> None
      | Some ds \<Rightarrow>
          (case ToIntE ds of
             None \<Rightarrow> None
           | Some idx \<Rightarrow> if idx < 0 then None else Some (nat idx)))"

text \<open>\<^verbatim>\<open>cast.ToString\<close> of an \<^verbatim>\<open>int\<close> is \<^verbatim>\<open>strconv.Itoa\<close>: the decimal numeral.\<close>

definition digitChar :: "nat \<Rightarrow> char" where
  "digitChar d = char_of (48 + d)"

fun ToString :: "nat \<Rightarrow> string" where
  "ToString n = (if n < 10 then [digitChar n] else ToString (n div 10) @ [digitChar (n mod 10)])"

declare ToString.simps [simp del]

subsection \<open>Parsing a key into sub keys\<close>

text \<open>
  Modelled from the spec: \<^verbatim>\<open>common.SplitOnDotExpectInsideQuotes\<close> and \<^verbatim>\<open>common.StripQuotes\<close>
  live in \<^verbatim>\<open>internal/common\<close>, which is not among the source files. The spec says: split on
  the dot, a dot inside a pair of double quotes being literal; then strip one layer of
  surrounding quotes from each piece; the empty string has no segments. No theorem below
  depends on more than that: each holds for the list of sub keys, whatever it is.
\<close>

fun splitDots :: "bool \<Rightarrow> string \<Rightarrow> string \<Rightarrow> string list" where
  "splitDots q piece [] = [piece]"
| "splitDots q piece (c # cs) =
     (if c = CHR 0x22 then splitDots (\<not> q) (piece @ [c]) cs
      else if c = CHR ''.'' \<and> \<not> q then piece # splitDots False [] cs
      else splitDots q (piece @ [c]) cs)"

definition SplitOnDotExpectInsideQuotes :: "string \<Rightarrow> string list" where
  "SplitOnDotExpectInsideQuotes s = (if s = [] then [] else splitDots False [] s)"

definition StripQuotes :: "string \<Rightarrow> string" where
  "StripQuotes s =
     (if 2 \<le> length s \<and> hd s = CHR 0x22 \<and> last s = CHR 0x22 then butlast (tl s) else s)"

definition GetSubKeys :: "string \<Rightarrow> string list" where
  "GetSubKeys key = map StripQuotes (SplitOnDotExpectInsideQuotes key)"

subsection \<open>GetAll and GetRecurse\<close>

text \<open>
  The state of a traversal is the slice \<^verbatim>\<open>*results\<close> and the store of bindings maps; every
  function returns the error (\<open>None\<close> is \<^verbatim>\<open>nil\<close>) with the state it leaves.

  \<open>predLoop\<close> is the \<^verbatim>\<open>for arrIdx, valueMapI := range valueArr\<close> loop of a predicate sub
  key; \<open>k\<close> is the recursive call \<^verbatim>\<open>GetRecurse(subKeys, subKeyIdx+1, ...)\<close>. The argument
  \<open>currentResult\<close> is the local variable as the iteration finds it: \<^verbatim>\<open>Matches\<close> stays
  allocated once an iteration has allocated it, \<^verbatim>\<open>Key\<close> is restored after each iteration.
  The copy \<^verbatim>\<open>copy[k] = v\<close> of \<^verbatim>\<open>orig\<close> followed by \<^verbatim>\<open>copy[matchName] = actualMatchValue\<close> is
  a new map in the store with the entries of \<open>orig\<close> and that update.
\<close>

type_synonym traversal = "error option \<times> RT list \<times> store"

fun predLoop ::
  "(node \<Rightarrow> RT \<Rightarrow> RT list \<Rightarrow> store \<Rightarrow> traversal) \<Rightarrow> string \<Rightarrow> string \<Rightarrow> string \<Rightarrow>
   nat \<Rightarrow> node list \<Rightarrow> RT \<Rightarrow> RT list \<Rightarrow> store \<Rightarrow> traversal" where
  "predLoop k matchName matchKey matchValue arrIdx [] currentResult results st = (None, results, st)"
| "predLoop k matchName matchKey matchValue arrIdx (valueMapI # remaining) currentResult results st =
     (case valueMapI of
        Mapping valueMap \<Rightarrow>
          (case mapGet valueMap matchKey of
             None \<Rightarrow> predLoop k matchName matchKey matchValue (Suc arrIdx) remaining currentResult results st
           | Some actualMatchValueI \<Rightarrow>
               (case actualMatchValueI of
                  Str actualMatchValue \<Rightarrow>
                    if matchValue \<noteq> [] \<and> matchValue \<noteq> actualMatchValue
                    then predLoop k matchName matchKey matchValue (Suc arrIdx) remaining currentResult results st
                    else
                      (let (orig, st1) =
                             (case Matches currentResult of
                                None \<Rightarrow> (length st, st @ [[]])
                              | Some a \<Rightarrow> (a, st));
                           copy = length st1;
                           st2 = st1 @ [AList.update matchName actualMatchValue (st1 ! orig)];
                           origKey = Key currentResult;
                           branch = currentResult
                             \<lparr>Key := origKey @ [''['' @ ToString arrIdx @ '']''], Matches := Some copy\<rparr>
                       in (case k valueMapI branch results st2 of
                             (Some err, results', st') \<Rightarrow> (Some err, results', st')
                           | (None, results', st') \<Rightarrow>
                               predLoop k matchName matchKey matchValue (Suc arrIdx) remaining
                                 (currentResult\<lparr>Matches := Some orig\<rparr>) results' st'))
                | _ \<Rightarrow> (Some ExpectedString, results, st)))
      | _ \<Rightarrow> (Some ExpectedObject, results, st))"

text \<open>
  \<open>GetRecurse\<close> takes the sub keys from \<^verbatim>\<open>subKeyIdx\<close> on, that is
  \<^verbatim>\<open>subKeys[subKeyIdx:]\<close>: the first equation is \<^verbatim>\<open>subKeyIdx >= len(subKeys)\<close>.
  The pattern of a predicate sub key is anchored at both ends, so \<^verbatim>\<open>FindAllStringSubmatch\<close>
  gives one match of four strings whenever \<^verbatim>\<open>MatchString\<close> holds: the two checks of
  \<^verbatim>\<open>len(subMatches)\<close> and \<^verbatim>\<open>len(subMatches[0])\<close> never fail and have no equation.
\<close>

definition matchNameOf :: "string \<Rightarrow> string \<Rightarrow> string" where
  "matchNameOf g1 matchKey = (if g1 = [] then matchKey else TrimSuffix g1 '':'')"

definition matchValueOf :: "string \<Rightarrow> string" where
  "matchValueOf g3 = (if g3 \<noteq> [] then TrimPrefix g3 ''='' else g3)"

primrec GetRecurse :: "string list \<Rightarrow> node \<Rightarrow> RT \<Rightarrow> RT list \<Rightarrow> store \<Rightarrow> traversal" where
  "GetRecurse [] = (\<lambda>value currentResult results st.
     (None, results @ [currentResult\<lparr>Value := value\<rparr>], st))"
| "GetRecurse (subKey # rest) = (\<lambda>value currentResult results st.
     if isNormal subKey then
       (case value of
          Mapping valueMap \<Rightarrow>
            (case mapGet valueMap subKey of
               Some value' \<Rightarrow>
                 GetRecurse rest value' (currentResult\<lparr>Key := Key currentResult @ [subKey]\<rparr>) results st
             | None \<Rightarrow> (Some (SubKeyNotFound subKey), results, st))
        | Sequence valueArr \<Rightarrow>
            (case getIndex subKey of
               None \<Rightarrow> (Some (NotAnIndex subKey), results, st)
             | Some idx \<Rightarrow>
                 if idx \<ge> length valueArr then (Some (IndexOutOfRange idx), results, st)
                 else GetRecurse rest (valueArr ! idx)
                        (currentResult\<lparr>Key := Key currentResult @ [subKey]\<rparr>) results st)
        | _ \<Rightarrow> (Some NotMapOrSlice, results, st))
     else
       (case complexSubKeyRegex subKey of
          None \<Rightarrow> (Some (InvalidSubKey subKey), results, st)
        | Some (g1, matchKey, g3) \<Rightarrow>
            (let matchName = matchNameOf g1 matchKey;
                 matchValue = matchValueOf g3
             in (case value of
                   Sequence valueArr \<Rightarrow>
                     if valueArr = [] then (None, results, st)
                     else predLoop (GetRecurse rest) matchName matchKey matchValue 0 valueArr
                            currentResult results st
                 | _ \<Rightarrow> (Some ExpectedSlice, results, st)))))"

definition emptyRT :: RT where
  "emptyRT = \<lparr>Key = [], Value = Null, Matches = None\<rparr>"

definition GetAll :: "string \<Rightarrow> node \<Rightarrow> traversal" where
  "GetAll key resource = GetRecurse (GetSubKeys key) resource emptyRT [] []"

subsection \<open>Get\<close>

fun GetLoop :: "string list \<Rightarrow> node \<Rightarrow> node \<times> bool" where
  "GetLoop [] value = (value, True)"
| "GetLoop (subKey # rest) value =
     (case value of
        Mapping valueMap \<Rightarrow>
          (case mapGet valueMap subKey of
             Some value' \<Rightarrow> GetLoop rest value'
           | None \<Rightarrow> (Null, False))
      | Sequence valueArr \<Rightarrow>
          (case getIndex subKey of
             Some idx \<Rightarrow> if idx < length valueArr then GetLoop rest (valueArr ! idx) else (value, False)
           | None \<Rightarrow> (value, False))
      | _ \<Rightarrow> (value, False))"

definition Get :: "string \<Rightarrow> node \<Rightarrow> node \<times> bool" where
  "Get key config = GetLoop (GetSubKeys key) config"

subsection \<open>Set and SetCreatingNew\<close>

text \<open>
  Both write into the tree they are given. The model returns the tree after the call with
  the error: a write to a map or slice reached through the sub keys is a write at that
  place of the tree (the tree shares no node between two places). \<open>SetLoop\<close> is the walk of
  \<^verbatim>\<open>Set\<close> over \<^verbatim>\<open>subKeys[:len(subKeys)-1]\<close> followed by the write at the last sub key; each
  level puts back what the level below left. \<^verbatim>\<open>Set\<close> writes into a map only where it has
  just found the key, so never into the nil map.
\<close>

fun SetLoop :: "string list \<Rightarrow> node \<Rightarrow> node \<Rightarrow> node \<times> error option" where
  "SetLoop [] newValue value = (value, Some NoSubKeys)"
| "SetLoop [subKey] newValue value =
     (case value of
        Mapping valueMap \<Rightarrow>
          (case valueMap of
             None \<Rightarrow> (value, Some (SubKeyNotPresent subKey))
           | Some entries \<Rightarrow>
               (case map_of entries subKey of
                  Some _ \<Rightarrow> (Mapping (Some (AList.update subKey newValue entries)), None)
                | None \<Rightarrow> (value, Some (SubKeyNotPresent subKey))))
      | Sequence valueArr \<Rightarrow>
          (case getIndex subKey of
             Some idx \<Rightarrow>
               if idx < length valueArr then (Sequence (valueArr[idx := newValue]), None)
               else (value, Some (InvalidIndex subKey))
           | None \<Rightarrow> (value, Some (InvalidIndex subKey)))
      | _ \<Rightarrow> (value, Some ExpectedMapOrArray))"
| "SetLoop (subKey # rest) newValue value =
     (case value of
        Mapping valueMap \<Rightarrow>
          (case valueMap of
             None \<Rightarrow> (value, Some (SubKeyNotPresent subKey))
           | Some entries \<Rightarrow>
               (case map_of entries subKey of
                  Some value' \<Rightarrow>
                    (case SetLoop rest newValue value' of
                       (value'', err) \<Rightarrow>
                         (Mapping (Some (AList.update subKey value'' entries)), err))
                | None \<Rightarrow> (value, Some (SubKeyNotPresent subKey))))
      | Sequence valueArr \<Rightarrow>
          (case getIndex subKey of
             Some idx \<Rightarrow>
               if idx < length valueArr then
                 (case SetLoop rest newValue (valueArr ! idx) of
                    (value'', err) \<Rightarrow> (Sequence (valueArr[idx := value'']), err))
               else (value, Some (InvalidIndex subKey))
           | None \<Rightarrow> (value, Some (InvalidIndex subKey)))
      | _ \<Rightarrow> (value, Some (ReachedScalar subKey)))"

definition Set :: "string \<Rightarrow> node \<Rightarrow> node \<Rightarrow> node \<times> error option" where
  "Set key newValue config =
     (if key = [] then (config, Some EmptyKey)
      else let subKeys = GetSubKeys key in
        if length subKeys = 0 then (config, Some NoSubKeys)
        else SetLoop subKeys newValue config)"

text \<open>
  \<open>SetCreatingNewLoop\<close> is the loop of \<^verbatim>\<open>SetCreatingNew\<close> over \<^verbatim>\<open>subKeys[:lastIdx]\<close> followed
  by \<^verbatim>\<open>config[lastSubKey] = newValue\<close>; its result is the map \<^verbatim>\<open>config\<close> pointed to when the
  call began, as the call leaves it. The source guards none of its writes: when \<^verbatim>\<open>config\<close>
  is the nil map, the read \<^verbatim>\<open>config[subKey]\<close> finds nothing and the write
  \<^verbatim>\<open>config[subKey] = newMap\<close> panics, as does the write \<^verbatim>\<open>config[lastSubKey] = newValue\<close>.
  At an intermediate that is a \<^verbatim>\<open>mapT\<close> the loop goes on in that map, nil or not, and
  writes nothing there; at any other it writes a new empty map and goes on in it. No write
  comes before a panic: the loop writes only where it has made a new map, and from there
  on every map it meets is one it has made.
\<close>

fun SetCreatingNewLoop :: "string list \<Rightarrow> node \<Rightarrow> mapT \<Rightarrow> mapT run" where
  "SetCreatingNewLoop [] newValue config = Returns config"
| "SetCreatingNewLoop [lastSubKey] newValue config =
     (case config of
        None \<Rightarrow> Panics
      | Some entries \<Rightarrow> Returns (Some (AList.update lastSubKey newValue entries)))"
| "SetCreatingNewLoop (subKey # rest) newValue config =
     (case config of
        None \<Rightarrow> Panics
      | Some entries \<Rightarrow>
          (case map_of entries subKey of
             Some (Mapping valueMap) \<Rightarrow>
               (case SetCreatingNewLoop rest newValue valueMap of
                  Panics \<Rightarrow> Panics
                | Returns valueMap' \<Rightarrow>
                    Returns (Some (AList.update subKey (Mapping valueMap') entries)))
           | _ \<Rightarrow>
               (case SetCreatingNewLoop rest newValue (Some []) of
                  Panics \<Rightarrow> Panics
                | Returns newMap \<Rightarrow>
                    Returns (Some (AList.update subKey (Mapping newMap) entries)))))"

definition SetCreatingNew :: "string \<Rightarrow> node \<Rightarrow> mapT \<Rightarrow> (mapT \<times> error option) run" where
  "SetCreatingNew key newValue config =
     (if key = [] then Returns (config, Some EmptyKey)
      else let subKeys = GetSubKeys key in
        if length subKeys = 0 then Returns (config, Some NoSubKeys)
        else (case SetCreatingNewLoop subKeys newValue config of
                Panics \<Rightarrow> Panics
              | Returns config' \<Rightarrow> Returns (config', None)))"

subsection \<open>Branches of a traversal\<close>

text \<open>
  An element of the sequence is matched by a predicate sub key when the loop reaches the
  recursive call for it: it is a map, it has the field, the field is a string, and the
  string is the wanted one when one is given.
\<close>

definition elementMatches :: "string \<Rightarrow> string \<Rightarrow> node \<Rightarrow> bool" where
  "elementMatches matchKey matchValue x =
     (case x of
        Mapping valueMap \<Rightarrow>
          (case mapGet valueMap matchKey of
             Some (Str actualMatchValue) \<Rightarrow> matchValue = [] \<or> matchValue = actualMatchValue
           | _ \<Rightarrow> False)
      | _ \<Rightarrow> False)"

text \<open>
  \<open>reaches subKeys value subKeys' value'\<close>: some branch of the traversal of \<open>value\<close> along
  \<open>subKeys\<close> leads to \<open>value'\<close> with the sub keys \<open>subKeys'\<close> left. A normal sub key
  has one way on, a predicate sub key one for each matched element. The traversal takes
  the branches in order and stops at the first error, so it gets there unless it has
  failed before.
\<close>

primrec reaches :: "string list \<Rightarrow> node \<Rightarrow> string list \<Rightarrow> node \<Rightarrow> bool" where
  "reaches [] value subKeys' value' = (subKeys' = [] \<and> value' = value)"
| "reaches (subKey # rest) value subKeys' value' =
     ((subKeys' = subKey # rest \<and> value' = value) \<or>
      (if isNormal subKey then
         (case value of
            Mapping valueMap \<Rightarrow>
              (case mapGet valueMap subKey of
                 Some v \<Rightarrow> reaches rest v subKeys' value'
               | None \<Rightarrow> False)
          | Sequence valueArr \<Rightarrow>
              (case getIndex subKey of
                 Some idx \<Rightarrow> idx < length valueArr \<and> reaches rest (valueArr ! idx) subKeys' value'
               | None \<Rightarrow> False)
          | _ \<Rightarrow> False)
       else
         (case complexSubKeyRegex subKey of
            None \<Rightarrow> False
          | Some (g1, matchKey, g3) \<Rightarrow>
              (case value of
                 Sequence valueArr \<Rightarrow>
                   list_ex (\<lambda>x. elementMatches matchKey (matchValueOf g3) x
                                 \<and> reaches rest x subKeys' value') valueArr
               | _ \<Rightarrow> False))))"

text \<open>A traversal only appends: to the results and to the store.\<close>

definition extends :: "RT list \<Rightarrow> store \<Rightarrow> traversal \<Rightarrow> bool" where
  "extends res st out = (prefix res (fst (snd out)) \<and> prefix st (snd (snd out)))"

text \<open>
  The branches of a traversal as a list, in the order the traversal takes them: for each
  branch the concrete key path, the value at its end, and the captures along it, each the
  capture name with the string of the matched element's field. \<open>loopBranches\<close> is the
  list for the loop of a predicate sub key, \<open>B\<close> the list for the sub keys after it.
\<close>

definition fieldString :: "string \<Rightarrow> node \<Rightarrow> string" where
  "fieldString matchKey x =
     (case x of
        Mapping valueMap \<Rightarrow> (case mapGet valueMap matchKey of Some (Str a) \<Rightarrow> a | _ \<Rightarrow> [])
      | _ \<Rightarrow> [])"

type_synonym branch = "string list \<times> node \<times> (string \<times> string) list"

definition extendBranch :: "string \<Rightarrow> (string \<times> string) list \<Rightarrow> branch \<Rightarrow> branch" where
  "extendBranch k caps b = (k # fst b, fst (snd b), caps @ snd (snd b))"

primrec loopBranches ::
  "(node \<Rightarrow> branch list) \<Rightarrow> string \<Rightarrow> string \<Rightarrow> string \<Rightarrow> nat \<Rightarrow> node list \<Rightarrow> branch list" where
  "loopBranches B matchName matchKey matchValue arrIdx [] = []"
| "loopBranches B matchName matchKey matchValue arrIdx (x # xs) =
     (if elementMatches matchKey matchValue x
      then map (extendBranch (''['' @ ToString arrIdx @ '']'') [(matchName, fieldString matchKey x)]) (B x)
      else [])
     @ loopBranches B matchName matchKey matchValue (Suc arrIdx) xs"

primrec branchesOf :: "string list \<Rightarrow> node \<Rightarrow> branch list" where
  "branchesOf [] = (\<lambda>value. [([], value, [])])"
| "branchesOf (subKey # rest) = (\<lambda>value.
     if isNormal subKey then
       (case value of
          Mapping valueMap \<Rightarrow>
            (case mapGet valueMap subKey of
               Some v \<Rightarrow> map (extendBranch subKey []) (branchesOf rest v)
             | None \<Rightarrow> [])
        | Sequence valueArr \<Rightarrow>
            (case getIndex subKey of
               Some idx \<Rightarrow>
                 if idx < length valueArr
                 then map (extendBranch subKey []) (branchesOf rest (valueArr ! idx)) else []
             | None \<Rightarrow> [])
        | _ \<Rightarrow> [])
     else
       (case complexSubKeyRegex subKey of
          None \<Rightarrow> []
        | Some (g1, matchKey, g3) \<Rightarrow>
            (case value of
               Sequence valueArr \<Rightarrow>
                 loopBranches (branchesOf rest) (matchNameOf g1 matchKey) matchKey (matchValueOf g3)
                   0 valueArr
             | _ \<Rightarrow> [])))"

text \<open>
  \<open>follows L key res out\<close>: the traversal that ended in \<open>out\<close> kept the results \<open>res\<close> it
  was given, and the keys and values of the results it appended are those of the branches
  \<open>L\<close> under the key prefix \<open>key\<close>: of the first of them when it failed, of all of them
  when it did not.
\<close>

definition newResults :: "RT list \<Rightarrow> traversal \<Rightarrow> RT list" where
  "newResults res out = drop (length res) (fst (snd out))"

definition keyed :: "string list \<Rightarrow> branch \<Rightarrow> string list \<times> node" where
  "keyed key b = (key @ fst b, fst (snd b))"

definition follows :: "branch list \<Rightarrow> string list \<Rightarrow> RT list \<Rightarrow> traversal \<Rightarrow> bool" where
  "follows L key res out =
     (prefix res (fst (snd out))
      \<and> prefix (map (\<lambda>r. (Key r, Value r)) (newResults res out)) (map (keyed key) L)
      \<and> (fst out = None \<longrightarrow>
           map (\<lambda>r. (Key r, Value r)) (newResults res out) = map (keyed key) L))"

text \<open>
  An element the loop of a predicate sub key passes without an error; the error it returns
  for another; the map \<^verbatim>\<open>orig\<close> of an iteration and the store once it is allocated.
\<close>

definition wellFormedElement :: "string \<Rightarrow> node \<Rightarrow> bool" where
  "wellFormedElement matchKey x =
     (case x of
        Mapping valueMap \<Rightarrow>
          (case mapGet valueMap matchKey of None \<Rightarrow> True | Some (Str a) \<Rightarrow> True | Some _ \<Rightarrow> False)
      | _ \<Rightarrow> False)"

definition elementError :: "string \<Rightarrow> node \<Rightarrow> error" where
  "elementError matchKey x = (case x of Mapping valueMap \<Rightarrow> ExpectedString | _ \<Rightarrow> ExpectedObject)"

definition origAddr :: "RT \<Rightarrow> store \<Rightarrow> nat" where
  "origAddr cur st = (case Matches cur of None \<Rightarrow> length st | Some a \<Rightarrow> a)"

definition origStore :: "RT \<Rightarrow> store \<Rightarrow> store" where
  "origStore cur st = (case Matches cur of None \<Rightarrow> st @ [[]] | Some a \<Rightarrow> st)"

text \<open>The number a decimal numeral denotes.\<close>

definition fromDigits :: "string \<Rightarrow> nat" where
  "fromDigits s = foldl (\<lambda>n c. 10 * n + (of_char c - 48)) 0 s"

subsection \<open>The bindings maps in the store\<close>

text \<open>
  What a reference reads in a store: the nil map reads as the empty map. A write through
  the reference \<open>Some a\<close> (\<^verbatim>\<open>m[k] = v\<close>, \<^verbatim>\<open>delete(m, k)\<close>) changes the store at \<open>a\<close> and
  nowhere else: it is \<open>st[a := m]\<close> for the map \<open>m\<close> it leaves.
\<close>

definition bindingsAt :: "store \<Rightarrow> nat option \<Rightarrow> (string \<rightharpoonup> string)" where
  "bindingsAt st m = (case m of None \<Rightarrow> Map.empty | Some a \<Rightarrow> map_of (st ! a))"

definition validRef :: "store \<Rightarrow> nat option \<Rightarrow> bool" where
  "validRef st m = (case m of None \<Rightarrow> True | Some a \<Rightarrow> a < length st)"

text \<open>
  \<open>freshRefs m res st out\<close>: the results the traversal appended hold pairwise different
  references, each the reference \<open>m\<close> or a map allocated by the traversal.
  \<open>holds L cur res st out\<close>: each result the traversal appended is a branch of \<open>L\<close> under
  the key of \<open>cur\<close>, and its map reads as the map of \<open>cur\<close> with the captures of the branch
  written into it in their order.
\<close>

definition freshRefs :: "nat option \<Rightarrow> RT list \<Rightarrow> store \<Rightarrow> traversal \<Rightarrow> bool" where
  "freshRefs m res st out =
     (distinct (map Matches (newResults res out))
      \<and> (\<forall>r \<in> set (newResults res out).
            Matches r = m
            \<or> (\<exists>a. Matches r = Some a \<and> length st \<le> a \<and> a < length (snd (snd out)))))"

definition holds :: "branch list \<Rightarrow> RT \<Rightarrow> RT list \<Rightarrow> store \<Rightarrow> traversal \<Rightarrow> bool" where
  "holds L cur res st out =
     (\<forall>r \<in> set (newResults res out). \<exists>b \<in> set L.
        Key r = Key cur @ fst b \<and> Value r = fst (snd b)
        \<and> bindingsAt (snd (snd out)) (Matches r)
            = bindingsAt st (Matches cur) ++ map_of (rev (snd (snd b))))"

subsection \<open>Segment classes, in the words of the spec\<close>

text \<open>
  The spec's classifier (its section 4.2): a segment of the form \<^verbatim>\<open>[<digits>]\<close> is an Index
  with the number the digits denote; another one that matches the predicate pattern is a
  Predicate with its capture name (the field when no \<^verbatim>\<open>name:\<close> is given), its field and
  its optional value; another one yet that contains \<^verbatim>\<open>[\<close> is invalid; the rest are Keys.
  The two patterns are those of the source.
\<close>

datatype segment =
    SegKey string
  | SegIndex nat
  | SegPredicate string string "string option"
  | SegInvalid

definition classify :: "string \<Rightarrow> segment" where
  "classify s =
     (case arrayIndexRegex s of
        Some ds \<Rightarrow> SegIndex (fromDigits ds)
      | None \<Rightarrow>
          (case complexSubKeyRegex s of
             Some (g1, field, g3) \<Rightarrow>
               SegPredicate (if g1 = [] then field else butlast g1) field
                 (if g3 = [] then None else Some (tl g3))
           | None \<Rightarrow> if CHR ''['' \<in> set s then SegInvalid else SegKey s))"

subsection \<open>Plain navigation, in the words of the spec\<close>

text \<open>
  The spec's reading of a path without predicates (its sections 4.3 and 4.4): a segment is
  tried as a literal key on a Mapping, where its absence is a missing key, and as an index
  on a Sequence, where it must be below the length; a segment that is no index at a
  Sequence, and any segment at a scalar, is a type mismatch. The index a segment denotes is
  the one of the spec's classifier: the number its digits denote in base ten.
\<close>

datatype navError = NavMissingKey | NavIndexOutOfRange | NavTypeMismatch

fun navigate :: "string list \<Rightarrow> node \<Rightarrow> navError + node" where
  "navigate [] T = Inr T"
| "navigate (seg # P) T =
     (case T of
        Mapping m \<Rightarrow>
          (case mapGet m seg of
             None \<Rightarrow> Inl NavMissingKey
           | Some child \<Rightarrow> navigate P child)
      | Sequence xs \<Rightarrow>
          (case classify seg of
             SegIndex i \<Rightarrow> if i < length xs then navigate P (xs ! i) else Inl NavIndexOutOfRange
           | _ \<Rightarrow> Inl NavTypeMismatch)
      | _ \<Rightarrow> Inl NavTypeMismatch)"

text \<open>
  \<open>literalPath\<close> follows the segments as literal map keys through nested Mappings only.
\<close>

fun literalPath :: "string list \<Rightarrow> mapT \<Rightarrow> node option" where
  "literalPath [] m = None"
| "literalPath [k] m = mapGet m k"
| "literalPath (k # ks) m =
     (case mapGet m k of
        Some (Mapping m') \<Rightarrow> literalPath ks m'
      | _ \<Rightarrow> None)"

text \<open>
  A segment is canonical when it is no index, or an index written without a leading zero
  (the numeral \<^verbatim>\<open>0\<close> apart): on these \<open>getIndex\<close> reads no other number than the one the
  digits denote in base ten.
\<close>

definition canonical :: "string \<Rightarrow> bool" where
  "canonical s =
     (case arrayIndexRegex s of
        None \<Rightarrow> True
      | Some ds \<Rightarrow> hd ds \<noteq> CHR ''0'' \<or> ds = ''0'')"

text \<open>
  \<open>nilOnPath subKeys config\<close>: the walk of \<^verbatim>\<open>SetCreatingNew\<close> along \<open>subKeys\<close> through the
  Mappings that \<open>config\<close> already holds comes to a nil map, \<open>config\<close> itself or one below.
\<close>

fun nilOnPath :: "string list \<Rightarrow> mapT \<Rightarrow> bool" where
  "nilOnPath [] config = False"
| "nilOnPath [lastSubKey] config = (config = None)"
| "nilOnPath (subKey # rest) config =
     (case config of
        None \<Rightarrow> True
      | Some entries \<Rightarrow>
          (case map_of entries subKey of
             Some (Mapping valueMap) \<Rightarrow> nilOnPath rest valueMap
           | _ \<Rightarrow> False))"

subsection \<open>Failing traversals and the branches completed before the failure\<close>

text \<open>
  \<open>failing subKeys value\<close>: some branch of the traversal of \<open>value\<close> along \<open>subKeys\<close> ends in
  an error: a normal sub key that is no key of the map or no index into the sequence it
  meets, or meets a scalar; a sub key with a bracket that is no predicate, or a predicate
  away from a sequence; a predicate at a sequence with an element that is no map or whose
  field is no string; or a matched element below which the rest fails.
\<close>

primrec failing :: "string list \<Rightarrow> node \<Rightarrow> bool" where
  "failing [] = (\<lambda>value. False)"
| "failing (subKey # rest) = (\<lambda>value.
     if isNormal subKey then
       (case value of
          Mapping valueMap \<Rightarrow>
            (case mapGet valueMap subKey of
               Some v \<Rightarrow> failing rest v
             | None \<Rightarrow> True)
        | Sequence valueArr \<Rightarrow>
            (case getIndex subKey of
               Some idx \<Rightarrow> if idx < length valueArr then failing rest (valueArr ! idx) else True
             | None \<Rightarrow> True)
        | _ \<Rightarrow> True)
     else
       (case complexSubKeyRegex subKey of
          None \<Rightarrow> True
        | Some (g1, matchKey, g3) \<Rightarrow>
            (case value of
               Sequence valueArr \<Rightarrow>
                 list_ex (\<lambda>x. \<not> wellFormedElement matchKey x
                               \<or> (elementMatches matchKey (matchValueOf g3) x \<and> failing rest x))
                   valueArr
             | _ \<Rightarrow> True)))"

text \<open>
  The branches a traversal completes, in its order: all of them when nothing fails, and
  those before the first failure otherwise. In the loop of a predicate sub key an element
  that is no map, or whose field is no string, ends the list; a matched element gives the
  branches completed below it, and ends the list when the rest fails below it.
\<close>

primrec loopCompleted ::
  "(node \<Rightarrow> branch list) \<Rightarrow> (node \<Rightarrow> bool) \<Rightarrow> string \<Rightarrow> string \<Rightarrow> string \<Rightarrow> nat \<Rightarrow> node list
   \<Rightarrow> branch list" where
  "loopCompleted C F matchName matchKey matchValue arrIdx [] = []"
| "loopCompleted C F matchName matchKey matchValue arrIdx (x # xs) =
     (if \<not> wellFormedElement matchKey x then []
      else if \<not> elementMatches matchKey matchValue x
      then loopCompleted C F matchName matchKey matchValue (Suc arrIdx) xs
      else map (extendBranch (''['' @ ToString arrIdx @ '']'') [(matchName, fieldString matchKey x)]) (C x)
           @ (if F x then [] else loopCompleted C F matchName matchKey matchValue (Suc arrIdx) xs))"

primrec completed :: "string list \<Rightarrow> node \<Rightarrow> branch list" where
  "completed [] = (\<lambda>value. [([], value, [])])"
| "completed (subKey # rest) = (\<lambda>value.
     if isNormal subKey then
       (case value of
          Mapping valueMap \<Rightarrow>
            (case mapGet valueMap subKey of
               Some v \<Rightarrow> map (extendBranch subKey []) (completed rest v)
             | None \<Rightarrow> [])
        | Sequence valueArr \<Rightarrow>
            (case getIndex subKey of
               Some idx \<Rightarrow>
                 if idx < length valueArr
                 then map (extendBranch subKey []) (completed rest (valueArr ! idx)) else []
             | None \<Rightarrow> [])
        | _ \<Rightarrow> [])
     else
       (case complexSubKeyRegex subKey of
          None \<Rightarrow> []
        | Some (g1, matchKey, g3) \<Rightarrow>
            (case value of
               Sequence valueArr \<Rightarrow>
                 loopCompleted (completed rest) (failing rest) (matchNameOf g1 matchKey) matchKey
                   (matchValueOf g3) 0 valueArr
             | _ \<Rightarrow> [])))"

text \<open>
  \<open>emits L key res out\<close>: the traversal that ended in \<open>out\<close> kept the results \<open>res\<close> it was
  given, and the keys and values of the results it appended are those of the branches \<open>L\<close>
  under the key prefix \<open>key\<close>, all of them and in their order.
\<close>

definition emits :: "branch list \<Rightarrow> string list \<Rightarrow> RT list \<Rightarrow> traversal \<Rightarrow> bool" where
  "emits L key res out =
     (prefix res (fst (snd out))
      \<and> map (\<lambda>r. (Key r, Value r)) (newResults res out) = map (keyed key) L)"

subsection \<open>Independent predicates\<close>

text \<open>
  The hypothesis of C3. \<open>matchCounts subKeys ms value\<close>: the predicate sub keys of
  \<open>subKeys\<close>, in their order, match \<open>ms = [m1, ..., mk]\<close> elements of their sequences: each
  is evaluated against a sequence, and there the elements that are maps with the field a
  string (the wanted one when one is given) are \<open>m\<close> in number, in every branch that gets
  to it. The way to the sequences is the one of the spec: a sub key that is no predicate
  is a literal key in a map and, in a sequence, the index its digits denote in base ten.
  Nothing is asked of the elements that do not match, nor of a sub key that is no
  predicate: where such a sub key does not resolve there is no predicate left to count.
\<close>

primrec matchCounts :: "string list \<Rightarrow> nat list \<Rightarrow> node \<Rightarrow> bool" where
  "matchCounts [] = (\<lambda>ms value. ms = [])"
| "matchCounts (subKey # rest) = (\<lambda>ms value.
     if isNormal subKey then
       (case value of
          Mapping valueMap \<Rightarrow>
            (case mapGet valueMap subKey of
               Some v \<Rightarrow> matchCounts rest ms v
             | None \<Rightarrow> True)
        | Sequence valueArr \<Rightarrow>
            (case classify subKey of
               SegIndex idx \<Rightarrow>
                 if idx < length valueArr then matchCounts rest ms (valueArr ! idx) else True
             | _ \<Rightarrow> True)
        | _ \<Rightarrow> True)
     else
       (case complexSubKeyRegex subKey of
          None \<Rightarrow> True
        | Some (g1, matchKey, g3) \<Rightarrow>
            (case value of
               Sequence valueArr \<Rightarrow>
                 (case ms of
                    [] \<Rightarrow> False
                  | m # ms' \<Rightarrow>
                      length (filter (elementMatches matchKey (matchValueOf g3)) valueArr) = m
                      \<and> list_all (matchCounts rest ms')
                           (filter (elementMatches matchKey (matchValueOf g3)) valueArr))
             | _ \<Rightarrow> False)))"

section \<open>Properties\<close>

subsection \<open>Errors of the loop and their way up\<close>

lemma predLoop_step:
  "fst (predLoop k mn mk mv i (y # ys) cur res st) \<noteq> None \<or>
   (\<exists>cur' res' st'. predLoop k mn mk mv i (y # ys) cur res st
                     = predLoop k mn mk mv (Suc i) ys cur' res' st')"
  by (cases y; simp split: option.splits node.splits prod.splits add: Let_def; blast)

lemma predLoop_not_mapping:
  "x \<in> set xs \<Longrightarrow> \<forall>m. x \<noteq> Mapping m \<Longrightarrow> fst (predLoop k mn mk mv i xs cur res st) \<noteq> None"
proof (induction xs arbitrary: i cur res st)
  case Nil
  then show ?case by simp
next
  case (Cons y ys)
  show ?case
  proof (cases "y = x")
    case True
    with Cons.prems(2) show ?thesis by (cases y) auto
  next
    case False
    with Cons.prems have "fst (predLoop k mn mk mv j ys c r s) \<noteq> None" for j c r s
      using Cons.IH by simp
    with predLoop_step[of k mn mk mv i y ys cur res st] show ?thesis by metis
  qed
qed

lemma predLoop_not_string:
  "Mapping m \<in> set xs \<Longrightarrow> mapGet m mk = Some v \<Longrightarrow> \<forall>s. v \<noteq> Str s \<Longrightarrow>
   fst (predLoop k mn mk mv i xs cur res st) \<noteq> None"
proof (induction xs arbitrary: i cur res st)
  case Nil
  then show ?case by simp
next
  case (Cons y ys)
  show ?case
  proof (cases "y = Mapping m")
    case True
    with Cons.prems(2,3) show ?thesis by (cases v) auto
  next
    case False
    with Cons.prems have "fst (predLoop k mn mk mv j ys c r s) \<noteq> None" for j c r s
      using Cons.IH by simp
    with predLoop_step[of k mn mk mv i y ys cur res st] show ?thesis by metis
  qed
qed

lemma elementMatches_iff:
  "elementMatches mk mv x \<longleftrightarrow>
   (\<exists>m a. x = Mapping m \<and> mapGet m mk = Some (Str a) \<and> (mv = [] \<or> mv = a))"
  by (auto simp: elementMatches_def split: node.splits option.splits)

lemma predLoop_branch_error:
  assumes "\<And>cur res st. fst (k x cur res st) \<noteq> None"
  shows "x \<in> set xs \<Longrightarrow> elementMatches mk mv x \<Longrightarrow>
         fst (predLoop k mn mk mv i xs cur res st) \<noteq> None"
proof (induction xs arbitrary: i cur res st)
  case Nil
  then show ?case by simp
next
  case (Cons y ys)
  show ?case
  proof (cases "y = x")
    case True
    with Cons.prems(2) obtain m a where y: "y = Mapping m" "mapGet m mk = Some (Str a)"
      and mv: "mv = [] \<or> mv = a"
      by (auto simp: elementMatches_iff)
    have "k y c r s \<noteq> (None, rs, t)" for c r s rs t
      using assms[of c r s] True by (metis fst_conv)
    then show ?thesis using y mv
      by (auto simp: Let_def split: prod.splits option.splits)
  next
    case False
    with Cons.prems have "fst (predLoop k mn mk mv j ys c r s) \<noteq> None" for j c r s
      using Cons.IH by simp
    with predLoop_step[of k mn mk mv i y ys cur res st] show ?thesis by metis
  qed
qed

lemma reaches_error:
  assumes "\<And>cur res st. fst (GetRecurse sks' w cur res st) \<noteq> None"
  shows "reaches sks v sks' w \<Longrightarrow> fst (GetRecurse sks v cur res st) \<noteq> None"
proof (induction sks arbitrary: v cur res st)
  case Nil
  then show ?case using assms by auto
next
  case (Cons s ss)
  show ?case
  proof (cases "sks' = s # ss \<and> w = v")
    case True
    then show ?thesis using assms by blast
  next
    case False
    note nf = False
    show ?thesis
    proof (cases "isNormal s")
      case True
      with Cons.prems nf Cons.IH show ?thesis
        by (auto split: node.splits option.splits)
    next
      case False
      from Cons.prems nf False obtain g1 g2 g3 where
        rx: "complexSubKeyRegex s = Some (g1, g2, g3)"
        by (cases "complexSubKeyRegex s") auto
      from Cons.prems nf False rx obtain xs where v: "v = Sequence xs"
        by (cases v) auto
      from Cons.prems nf False rx v obtain x where
        x: "x \<in> set xs" "elementMatches g2 (matchValueOf g3) x" "reaches ss x sks' w"
        by (auto simp: list_ex_iff)
      have "fst (GetRecurse ss x c r s') \<noteq> None" for c r s'
        using Cons.IH[OF x(3)] .
      from predLoop_branch_error[of "GetRecurse ss" x, OF this x(1) x(2)]
      show ?thesis using False rx v x(1) by (auto simp: Let_def)
    qed
  qed
qed

lemma extends_refl: "extends res st (e, res, st)"
  by (simp add: extends_def)

lemma extends_trans:
  "prefix res res1 \<Longrightarrow> prefix st st1 \<Longrightarrow> extends res1 st1 out \<Longrightarrow> extends res st out"
  by (auto simp: extends_def)

lemma predLoop_extends:
  assumes "\<And>x c r s. extends r s (k x c r s)"
  shows "extends res st (predLoop k mn mk mv i xs cur res st)"
proof (induction xs arbitrary: i cur res st)
  case Nil
  show ?case by (simp add: extends_refl)
next
  case (Cons y ys)
  show ?case
  proof (cases "elementMatches mk mv y")
    case False
    then show ?thesis using Cons.IH
      by (cases y) (auto simp: elementMatches_iff extends_refl split: option.splits node.splits)
  next
    case True
    then obtain m a where y: "y = Mapping m" "mapGet m mk = Some (Str a)" "mv = [] \<or> mv = a"
      by (auto simp: elementMatches_iff)
    obtain orig st1 where o: "(case Matches cur of None \<Rightarrow> (length st, st @ [[]]) | Some a \<Rightarrow> (a, st)) = (orig, st1)"
      by fastforce
    then have p1: "prefix st st1" by (auto split: option.splits)
    let ?st2 = "st1 @ [AList.update mn a (st1 ! orig)]"
    let ?b = "cur\<lparr>Key := Key cur @ [''['' @ ToString i @ '']''], Matches := Some (length st1)\<rparr>"
    obtain e r' s' where kr: "k y ?b res ?st2 = (e, r', s')" by (cases "k y ?b res ?st2") auto
    from assms[of res ?st2 y ?b] kr have ex: "prefix res r'" "prefix ?st2 s'"
      by (auto simp: extends_def)
    with p1 have ps: "prefix st s'" by (meson prefix_order.trans prefixI)
    show ?thesis
    proof (cases e)
      case None
      have "extends r' s' (predLoop k mn mk mv (Suc i) ys (cur\<lparr>Matches := Some orig\<rparr>) r' s')"
        by (rule Cons.IH)
      from extends_trans[OF ex(1) ps this] show ?thesis using y o kr None by (auto simp: Let_def)
    next
      case (Some err)
      then show ?thesis using y o kr ex(1) ps by (auto simp: Let_def extends_def)
    qed
  qed
qed

lemma GetRecurse_extends: "extends res st (GetRecurse sks v cur res st)"
proof (induction sks arbitrary: v cur res st)
  case Nil
  show ?case by (simp add: extends_def)
next
  case (Cons s ss)
  show ?case using Cons.IH predLoop_extends[of "GetRecurse ss", OF Cons.IH]
    by (auto simp: extends_refl Let_def split: node.splits option.splits)
qed

subsection \<open>C1: an element of the sequence that is not a map\<close>

text \<open>
  C1 as stated: a predicate sub key skips the elements that are not maps. The loop
  returns the error "expected all the elements of the slice to be object" at the first one:
  here it stands before an element that would match.
\<close>

theorem C1_non_mapping_element_counterexample:
  "GetAll ''[name]'' (Sequence [Str ''x'', Mapping (Some [(''name'', Str ''nginx'')])])
     = (Some ExpectedObject, [], [])"
  by code_simp

text \<open>
  C1, as amended: when a branch of GetAll's traversal evaluates a predicate sub key against a
  sequence that holds an element which is not a map, GetAll returns an error.
\<close>

theorem C1_non_mapping_element_is_error:
  assumes "reaches (GetSubKeys key) resource (subKey # rest) (Sequence valueArr)"
      and "\<not> isNormal subKey"
      and "complexSubKeyRegex subKey \<noteq> None"
      and "x \<in> set valueArr"
      and "\<forall>valueMap. x \<noteq> Mapping valueMap"
  shows "fst (GetAll key resource) \<noteq> None"
proof -
  obtain g1 g2 g3 where rx: "complexSubKeyRegex subKey = Some (g1, g2, g3)"
    using assms(3) by auto
  from assms(4) have ne: "valueArr \<noteq> []" by auto
  have "fst (GetRecurse (subKey # rest) (Sequence valueArr) cur res st) \<noteq> None" for cur res st
    using predLoop_not_mapping[OF assms(4,5)] assms(2) rx ne by (simp add: Let_def)
  from reaches_error[OF this assms(1)] show ?thesis by (simp add: GetAll_def)
qed

theorem C1_non_mapping_element_is_error_witness:
  "reaches (GetSubKeys ''containers.[name]'')
       (Mapping (Some [(''containers'', Sequence [Mapping (Some [(''name'', Str ''nginx'')]), Num 3])]))
       [''[name]''] (Sequence [Mapping (Some [(''name'', Str ''nginx'')]), Num 3])
   \<and> \<not> isNormal ''[name]''
   \<and> complexSubKeyRegex ''[name]'' \<noteq> None
   \<and> Num 3 \<in> set [Mapping (Some [(''name'', Str ''nginx'')]), Num 3]
   \<and> fst (GetAll ''containers.[name]''
         (Mapping (Some [(''containers'', Sequence [Mapping (Some [(''name'', Str ''nginx'')]), Num 3])]))) \<noteq> None"
proof -
  have h1: "reaches (GetSubKeys ''containers.[name]'')
       (Mapping (Some [(''containers'', Sequence [Mapping (Some [(''name'', Str ''nginx'')]), Num 3])]))
       [''[name]''] (Sequence [Mapping (Some [(''name'', Str ''nginx'')]), Num 3])"
    by code_simp
  have h2: "\<not> isNormal ''[name]''" by code_simp
  have h3: "complexSubKeyRegex ''[name]'' \<noteq> None" by code_simp
  have h4: "Num 3 \<in> set [Mapping (Some [(''name'', Str ''nginx'')]), Num 3]" by simp
  have h5: "\<forall>valueMap. Num 3 \<noteq> Mapping valueMap" by simp
  from C1_non_mapping_element_is_error[OF h1 h2 h3 h4 h5] h1 h2 h3 h4 show ?thesis by blast
qed

subsection \<open>C10: a field that is not a string\<close>

text \<open>
  C10: when a branch of GetAll's traversal evaluates a predicate sub key against a sequence
  in which some map has the predicate's field with a value that is not a string, GetAll
  returns an error, whatever the third submatch is: with \<open>=value\<close> or without it.
\<close>

theorem C10_non_string_field_is_error:
  assumes "reaches (GetSubKeys key) resource (subKey # rest) (Sequence valueArr)"
      and "\<not> isNormal subKey"
      and "complexSubKeyRegex subKey = Some (g1, matchKey, g3)"
      and "Mapping valueMap \<in> set valueArr"
      and "mapGet valueMap matchKey = Some v"
      and "\<forall>s. v \<noteq> Str s"
  shows "fst (GetAll key resource) \<noteq> None"
proof -
  from assms(4) have ne: "valueArr \<noteq> []" by auto
  have "fst (GetRecurse (subKey # rest) (Sequence valueArr) cur res st) \<noteq> None" for cur res st
    using predLoop_not_string[OF assms(4,5,6)] assms(2,3) ne by (simp add: Let_def)
  from reaches_error[OF this assms(1)] show ?thesis by (simp add: GetAll_def)
qed

theorem C10_non_string_field_is_error_witness:
  "reaches (GetSubKeys ''ports.[containerPort]'')
       (Mapping (Some [(''ports'', Sequence [Mapping (Some [(''containerPort'', Num 80)])])]))
       [''[containerPort]''] (Sequence [Mapping (Some [(''containerPort'', Num 80)])])
   \<and> \<not> isNormal ''[containerPort]''
   \<and> complexSubKeyRegex ''[containerPort]'' = Some ([], ''containerPort'', [])
   \<and> Mapping (Some [(''containerPort'', Num 80)]) \<in> set [Mapping (Some [(''containerPort'', Num 80)])]
   \<and> mapGet (Some [(''containerPort'', Num 80)]) ''containerPort'' = Some (Num 80)
   \<and> fst (GetAll ''ports.[containerPort]''
         (Mapping (Some [(''ports'', Sequence [Mapping (Some [(''containerPort'', Num 80)])])]))) \<noteq> None"
proof -
  have h1: "reaches (GetSubKeys ''ports.[containerPort]'')
       (Mapping (Some [(''ports'', Sequence [Mapping (Some [(''containerPort'', Num 80)])])]))
       [''[containerPort]''] (Sequence [Mapping (Some [(''containerPort'', Num 80)])])"
    by code_simp
  have h2: "\<not> isNormal ''[containerPort]''" by code_simp
  have h3: "complexSubKeyRegex ''[containerPort]'' = Some ([], ''containerPort'', [])"
    by code_simp
  have h4: "Mapping (Some [(''containerPort'', Num 80)]) \<in> set [Mapping (Some [(''containerPort'', Num 80)])]"
    by simp
  have h5: "mapGet (Some [(''containerPort'', Num 80)]) ''containerPort'' = Some (Num 80)"
    by (simp add: mapGet_def)
  have h6: "\<forall>s. Num 80 \<noteq> Str s" by simp
  from C10_non_string_field_is_error[OF h1 h2 h3 h4 h5 h6] h1 h2 h3 h4 h5
  show ?thesis by blast
qed

subsection \<open>The results of a traversal are its branches\<close>

lemma predLoop_skip:
  "\<not> elementMatches mk mv y \<Longrightarrow>
   predLoop k mn mk mv i (y # ys) cur res st =
     (if wellFormedElement mk y then predLoop k mn mk mv (Suc i) ys cur res st
      else (Some (elementError mk y), res, st))"
  by (cases y)
     (auto simp: elementMatches_iff wellFormedElement_def elementError_def
           split: option.splits node.splits)

lemma predLoop_match:
  "elementMatches mk mv y \<Longrightarrow>
   predLoop k mn mk mv i (y # ys) cur res st =
     (case k y (cur\<lparr>Key := Key cur @ [''['' @ ToString i @ '']''],
                    Matches := Some (length (origStore cur st))\<rparr>) res
             (origStore cur st @ [AList.update mn (fieldString mk y) (origStore cur st ! origAddr cur st)]) of
        (Some err, results', st') \<Rightarrow> (Some err, results', st')
      | (None, results', st') \<Rightarrow>
          predLoop k mn mk mv (Suc i) ys (cur\<lparr>Matches := Some (origAddr cur st)\<rparr>) results' st')"
  by (cases "Matches cur")
     (auto simp: elementMatches_iff origAddr_def origStore_def fieldString_def Let_def
           cong: prod.case_cong option.case_cong)

lemma follows_error: "follows L key res (Some e, res, st)"
  by (simp add: follows_def newResults_def)

lemma follows_none: "follows [] key res (None, res, st)"
  by (simp add: follows_def newResults_def)

lemma follows_more:
  "follows A key res (Some e, r', s') \<Longrightarrow> follows (A @ L) key res (Some e, r', s')"
  by (auto simp: follows_def)

lemma follows_append:
  assumes "follows A key res (None, r', s')" and "follows L key r' out"
  shows "follows (A @ L) key res out"
proof -
  from assms(1) obtain n1 where r': "r' = res @ n1"
    and a: "map (\<lambda>r. (Key r, Value r)) n1 = map (keyed key) A"
    by (auto simp: follows_def newResults_def prefix_def)
  from assms(2) obtain n2 where o: "fst (snd out) = r' @ n2"
    and p: "prefix (map (\<lambda>r. (Key r, Value r)) n2) (map (keyed key) L)"
    and e: "fst out = None \<longrightarrow> map (\<lambda>r. (Key r, Value r)) n2 = map (keyed key) L"
    by (auto simp: follows_def newResults_def prefix_def)
  from r' o have n: "newResults res out = n1 @ n2" by (simp add: newResults_def)
  show ?thesis using r' o a p e n by (simp add: follows_def)
qed

lemma keyed_extendBranch: "keyed key (extendBranch k caps b) = keyed (key @ [k]) b"
  by (simp add: keyed_def extendBranch_def)

lemma follows_extend:
  "follows L (key @ [k]) res out \<Longrightarrow> follows (map (extendBranch k caps) L) key res out"
  by (simp add: follows_def comp_def keyed_extendBranch)

lemma predLoop_follows:
  assumes k: "\<And>x c r s. follows (B x) (Key c) r (k x c r s)"
  shows "follows (loopBranches B mn mk mv i xs) (Key cur) res (predLoop k mn mk mv i xs cur res st)"
proof (induction xs arbitrary: i cur res st)
  case Nil
  show ?case by (simp add: follows_none)
next
  case (Cons y ys)
  show ?case
  proof (cases "elementMatches mk mv y")
    case False
    then show ?thesis using Cons.IH[of "Suc i" cur res st]
      by (simp add: predLoop_skip follows_error del: predLoop.simps)
  next
    case True
    let ?c = "cur\<lparr>Key := Key cur @ [''['' @ ToString i @ '']''],
                   Matches := Some (length (origStore cur st))\<rparr>"
    let ?s = "origStore cur st @ [AList.update mn (fieldString mk y) (origStore cur st ! origAddr cur st)]"
    let ?A = "map (extendBranch (''['' @ ToString i @ '']'') [(mn, fieldString mk y)]) (B y)"
    obtain e r' s' where kr: "k y ?c res ?s = (e, r', s')" by (cases "k y ?c res ?s") auto
    from k[of y ?c res ?s] kr have f: "follows ?A (Key cur) res (e, r', s')"
      by (simp add: follows_extend)
    show ?thesis
    proof (cases e)
      case None
      have "follows (loopBranches B mn mk mv (Suc i) ys) (Key cur) r'
              (predLoop k mn mk mv (Suc i) ys (cur\<lparr>Matches := Some (origAddr cur st)\<rparr>) r' s')"
        using Cons.IH[of "Suc i" "cur\<lparr>Matches := Some (origAddr cur st)\<rparr>" r' s'] by simp
      from follows_append[OF f[unfolded None] this] show ?thesis
        using True kr None by (simp add: predLoop_match del: predLoop.simps)
    next
      case (Some err)
      from follows_more[OF f[unfolded Some]] show ?thesis
        using True kr Some by (simp add: predLoop_match del: predLoop.simps)
    qed
  qed
qed

lemma GetRecurse_follows:
  "follows (branchesOf sks v) (Key cur) res (GetRecurse sks v cur res st)"
proof (induction sks arbitrary: v cur res st)
  case Nil
  show ?case by (simp add: follows_def newResults_def keyed_def)
next
  case (Cons s ss)
  have ih: "follows (map (extendBranch s []) (branchesOf ss w)) (Key cur) res
              (GetRecurse ss w (cur\<lparr>Key := Key cur @ [s]\<rparr>) res st)" for w
    using Cons.IH[of w "cur\<lparr>Key := Key cur @ [s]\<rparr>" res st] by (simp add: follows_extend)
  show ?case
  proof (cases "isNormal s")
    case True
    then show ?thesis using ih
      by (auto simp: follows_error split: node.splits option.splits)
  next
    case False
    then show ?thesis
      using predLoop_follows[of "branchesOf ss" "GetRecurse ss", OF Cons.IH]
      by (auto simp: follows_error follows_none Let_def split: node.splits option.splits)
  qed
qed

lemma fromDigits_ToString: "fromDigits (ToString n) = n"
proof (induction n rule: ToString.induct)
  case (1 n)
  show ?case
  proof (cases "n < 10")
    case True
    then show ?thesis
      by (subst ToString.simps) (simp add: fromDigits_def digitChar_def)
  next
    case False
    have d: "of_char (digitChar (n mod 10)) = 48 + n mod 10"
      by (simp add: digitChar_def)
    from False 1 have "fromDigits (ToString (n div 10)) = n div 10" by simp
    with False d show ?thesis
      by (subst ToString.simps) (simp add: fromDigits_def)
  qed
qed

lemma ToString_inj: "ToString i = ToString j \<Longrightarrow> i = j"
  by (metis fromDigits_ToString)

lemma branchesOf_length: "b \<in> set (branchesOf sks v) \<Longrightarrow> length (fst b) = length sks"
proof (induction sks arbitrary: v b)
  case Nil
  then show ?case by simp
next
  case (Cons s ss)
  have lb: "c \<in> set (loopBranches (branchesOf ss) mn mk mv i xs) \<Longrightarrow> length (fst c) = Suc (length ss)"
    for c mn mk mv i xs
    by (induction xs arbitrary: i) (auto simp: extendBranch_def dest: Cons.IH split: if_splits)
  from Cons.prems show ?case
    by (auto simp: extendBranch_def dest: Cons.IH lb split: if_splits node.splits option.splits)
qed

lemma loopBranches_head:
  "b \<in> set (loopBranches B mn mk mv i xs) \<Longrightarrow>
   \<exists>j ks. i \<le> j \<and> fst b = (''['' @ ToString j @ '']'') # ks"
proof (induction xs arbitrary: i)
  case Nil
  then show ?case by simp
next
  case (Cons x xs)
  from Cons.prems consider
    (here) "b \<in> set (map (extendBranch (''['' @ ToString i @ '']'') [(mn, fieldString mk x)]) (B x))"
    | (later) "b \<in> set (loopBranches B mn mk mv (Suc i) xs)"
    by (auto split: if_splits)
  then show ?case
  proof cases
    case here
    then show ?thesis by (auto simp: extendBranch_def)
  next
    case later
    from Cons.IH[OF this] show ?thesis by (metis Suc_leD)
  qed
qed

lemma distinct_map_extendBranch:
  "distinct (map fst L) \<Longrightarrow> distinct (map fst (map (extendBranch k caps) L))"
  by (simp add: distinct_map extendBranch_def inj_on_def comp_def)

lemma loopBranches_distinct:
  assumes "\<And>x. distinct (map fst (B x))"
  shows "distinct (map fst (loopBranches B mn mk mv i xs))"
proof (induction xs arbitrary: i)
  case Nil
  show ?case by simp
next
  case (Cons x xs)
  let ?A = "map (extendBranch (''['' @ ToString i @ '']'') [(mn, fieldString mk x)]) (B x)"
  have a: "distinct (map fst ?A)" by (rule distinct_map_extendBranch) (rule assms)
  have d: "kx \<notin> fst ` set (loopBranches B mn mk mv (Suc i) xs)" if kx: "kx \<in> fst ` set ?A" for kx
  proof
    assume "kx \<in> fst ` set (loopBranches B mn mk mv (Suc i) xs)"
    then obtain c where c: "c \<in> set (loopBranches B mn mk mv (Suc i) xs)" and kc: "kx = fst c"
      by blast
    from kx have "hd kx = ''['' @ ToString i @ '']''" by (auto simp: extendBranch_def)
    moreover from loopBranches_head[OF c] kc obtain j where "Suc i \<le> j"
      "hd kx = ''['' @ ToString j @ '']''" by auto
    ultimately show False using ToString_inj[of i j] by auto
  qed
  have "distinct (map fst ?A @ map fst (loopBranches B mn mk mv (Suc i) xs))"
    using a d Cons.IH[of "Suc i"] by (auto simp del: map_map)
  then show ?case by (simp del: map_map)
qed

lemma branchesOf_distinct: "distinct (map fst (branchesOf sks v))"
proof (induction sks arbitrary: v)
  case Nil
  show ?case by simp
next
  case (Cons s ss)
  show ?case
    using distinct_map_extendBranch[OF Cons.IH] loopBranches_distinct[of "branchesOf ss", OF Cons.IH]
    by (auto split: node.splits option.splits simp del: map_map)
qed

lemma loopBranches_count:
  "(\<And>x. x \<in> set xs \<Longrightarrow> elementMatches mk mv x \<Longrightarrow> length (B x) = p) \<Longrightarrow>
   length (loopBranches B mn mk mv i xs) = length (filter (elementMatches mk mv) xs) * p"
  by (induction xs arbitrary: i) auto

subsection \<open>Where a traversal fails, and what it returns then\<close>

lemma elementMatches_wellFormed: "elementMatches mk mv x \<Longrightarrow> wellFormedElement mk x"
  by (auto simp: elementMatches_def wellFormedElement_def split: node.splits option.splits)

lemma predLoop_failing:
  assumes k: "\<And>x c r s. (fst (k x c r s) \<noteq> None) = F x"
  shows "(fst (predLoop k mn mk mv i xs cur res st) \<noteq> None)
         = (\<exists>x \<in> set xs. \<not> wellFormedElement mk x \<or> (elementMatches mk mv x \<and> F x))"
proof (induction xs arbitrary: i cur res st)
  case Nil
  show ?case by simp
next
  case (Cons y ys)
  show ?case
  proof (cases "elementMatches mk mv y")
    case False
    then show ?thesis using Cons.IH[of "Suc i" cur res st]
      by (simp add: predLoop_skip del: predLoop.simps)
  next
    case True
    let ?c = "cur\<lparr>Key := Key cur @ [''['' @ ToString i @ '']''],
                   Matches := Some (length (origStore cur st))\<rparr>"
    let ?s = "origStore cur st @ [AList.update mn (fieldString mk y) (origStore cur st ! origAddr cur st)]"
    obtain e r' s' where kr: "k y ?c res ?s = (e, r', s')" by (cases "k y ?c res ?s") auto
    from k[of y ?c res ?s] kr have f: "F y = (e \<noteq> None)" by simp
    from True have w: "wellFormedElement mk y" by (rule elementMatches_wellFormed)
    show ?thesis
    proof (cases e)
      case None
      with True kr f w show ?thesis
        using Cons.IH[of "Suc i" "cur\<lparr>Matches := Some (origAddr cur st)\<rparr>" r' s']
        by (simp add: predLoop_match del: predLoop.simps)
    next
      case (Some err)
      with True kr f show ?thesis
        by (simp add: predLoop_match del: predLoop.simps)
    qed
  qed
qed

lemma GetRecurse_failing: "(fst (GetRecurse sks v cur res st) \<noteq> None) = failing sks v"
proof (induction sks arbitrary: v cur res st)
  case Nil
  show ?case by simp
next
  case (Cons s ss)
  show ?case
  proof (cases "isNormal s")
    case True
    then show ?thesis using Cons.IH
      by (auto split: node.splits option.splits)
  next
    case False
    then show ?thesis
      using predLoop_failing[of "GetRecurse ss" "failing ss", OF Cons.IH]
      by (auto simp: Let_def list_ex_iff split: node.splits option.splits)
  qed
qed

lemma emits_error: "emits [] key res (e, res, st)"
  by (simp add: emits_def newResults_def)

lemma emits_extend:
  "emits L (key @ [k]) res out \<Longrightarrow> emits (map (extendBranch k caps) L) key res out"
  by (simp add: emits_def comp_def keyed_extendBranch)

lemma emits_append:
  assumes "emits A key res (e, r', s')" and "emits L key r' out"
  shows "emits (A @ L) key res out"
proof -
  from assms(1) obtain n1 where r': "r' = res @ n1"
    and a: "map (\<lambda>r. (Key r, Value r)) n1 = map (keyed key) A"
    by (auto simp: emits_def newResults_def prefix_def)
  from assms(2) obtain n2 where o: "fst (snd out) = r' @ n2"
    and p: "map (\<lambda>r. (Key r, Value r)) n2 = map (keyed key) L"
    by (auto simp: emits_def newResults_def prefix_def)
  from r' o have n: "newResults res out = n1 @ n2" by (simp add: newResults_def)
  show ?thesis using r' o a p n by (simp add: emits_def)
qed

lemma predLoop_emits:
  assumes k: "\<And>x c r s. emits (C x) (Key c) r (k x c r s)"
      and f: "\<And>x c r s. (fst (k x c r s) \<noteq> None) = F x"
  shows "emits (loopCompleted C F mn mk mv i xs) (Key cur) res (predLoop k mn mk mv i xs cur res st)"
proof (induction xs arbitrary: i cur res st)
  case Nil
  show ?case by (simp add: emits_error)
next
  case (Cons y ys)
  show ?case
  proof (cases "elementMatches mk mv y")
    case False
    then show ?thesis using Cons.IH[of "Suc i" cur res st]
      by (simp add: predLoop_skip emits_error del: predLoop.simps)
  next
    case True
    let ?c = "cur\<lparr>Key := Key cur @ [''['' @ ToString i @ '']''],
                   Matches := Some (length (origStore cur st))\<rparr>"
    let ?s = "origStore cur st @ [AList.update mn (fieldString mk y) (origStore cur st ! origAddr cur st)]"
    let ?A = "map (extendBranch (''['' @ ToString i @ '']'') [(mn, fieldString mk y)]) (C y)"
    obtain e r' s' where kr: "k y ?c res ?s = (e, r', s')" by (cases "k y ?c res ?s") auto
    from k[of y ?c res ?s] kr have a: "emits ?A (Key cur) res (e, r', s')"
      by (simp add: emits_extend)
    from f[of y ?c res ?s] kr have fy: "F y = (e \<noteq> None)" by simp
    from True have w: "wellFormedElement mk y" by (rule elementMatches_wellFormed)
    show ?thesis
    proof (cases e)
      case None
      have "emits (loopCompleted C F mn mk mv (Suc i) ys) (Key cur) r'
              (predLoop k mn mk mv (Suc i) ys (cur\<lparr>Matches := Some (origAddr cur st)\<rparr>) r' s')"
        using Cons.IH[of "Suc i" "cur\<lparr>Matches := Some (origAddr cur st)\<rparr>" r' s'] by simp
      from emits_append[OF a this] show ?thesis
        using True kr None fy w by (simp add: predLoop_match del: predLoop.simps)
    next
      case (Some err)
      from a show ?thesis
        using True kr Some fy w by (simp add: predLoop_match del: predLoop.simps)
    qed
  qed
qed

lemma GetRecurse_emits:
  "emits (completed sks v) (Key cur) res (GetRecurse sks v cur res st)"
proof (induction sks arbitrary: v cur res st)
  case Nil
  show ?case by (simp add: emits_def newResults_def keyed_def)
next
  case (Cons s ss)
  have ih: "emits (map (extendBranch s []) (completed ss w)) (Key cur) res
              (GetRecurse ss w (cur\<lparr>Key := Key cur @ [s]\<rparr>) res st)" for w
    using Cons.IH[of w "cur\<lparr>Key := Key cur @ [s]\<rparr>" res st] by (simp add: emits_extend)
  show ?case
  proof (cases "isNormal s")
    case True
    then show ?thesis using ih
      by (auto simp: emits_error split: node.splits option.splits)
  next
    case False
    then show ?thesis
      using predLoop_emits[of "completed ss" "GetRecurse ss" "failing ss", OF Cons.IH GetRecurse_failing]
      by (auto simp: emits_error Let_def split: node.splits option.splits)
  qed
qed

lemma GetAll_completed:
  "map (\<lambda>r. (Key r, Value r)) (fst (snd (GetAll key resource)))
     = map (keyed []) (completed (GetSubKeys key) resource)"
  using GetRecurse_emits[of "GetSubKeys key" resource emptyRT "[]" "[]"]
  by (simp add: emits_def GetAll_def newResults_def emptyRT_def)

lemma GetAll_failing: "(fst (GetAll key resource) \<noteq> None) = failing (GetSubKeys key) resource"
  unfolding GetAll_def by (rule GetRecurse_failing)

lemma loopCompleted_prefix:
  assumes p: "\<And>x. prefix (C x) (B x)" and e: "\<And>x. \<not> F x \<Longrightarrow> C x = B x"
  shows "prefix (loopCompleted C F mn mk mv i xs) (loopBranches B mn mk mv i xs)"
proof (induction xs arbitrary: i)
  case Nil
  show ?case by simp
next
  case (Cons x xs)
  show ?case
  proof (cases "elementMatches mk mv x")
    case False
    with Cons.IH[of "Suc i"] show ?thesis by simp
  next
    case True
    then have w: "wellFormedElement mk x" by (rule elementMatches_wellFormed)
    show ?thesis
    proof (cases "F x")
      case True
      from p[of x] have "prefix (map (extendBranch (''['' @ ToString i @ '']'') [(mn, fieldString mk x)]) (C x))
                           (map (extendBranch (''['' @ ToString i @ '']'') [(mn, fieldString mk x)]) (B x))"
        by (rule map_mono_prefix)
      with True w \<open>elementMatches mk mv x\<close> show ?thesis by (simp add: prefix_prefix)
    next
      case False
      with e[of x] w \<open>elementMatches mk mv x\<close> Cons.IH[of "Suc i"] show ?thesis by simp
    qed
  qed
qed

lemma loopCompleted_all:
  assumes "\<And>x. x \<in> set xs \<Longrightarrow> elementMatches mk mv x \<Longrightarrow> \<not> F x \<Longrightarrow> C x = B x"
      and "\<And>x. x \<in> set xs \<Longrightarrow> wellFormedElement mk x \<and> (elementMatches mk mv x \<longrightarrow> \<not> F x)"
  shows "loopCompleted C F mn mk mv i xs = loopBranches B mn mk mv i xs"
  using assms by (induction xs arbitrary: i) auto

lemma completed_branchesOf:
  "prefix (completed sks v) (branchesOf sks v)
   \<and> (\<not> failing sks v \<longrightarrow> completed sks v = branchesOf sks v)"
proof (induction sks arbitrary: v)
  case Nil
  show ?case by simp
next
  case (Cons s ss)
  have p: "prefix (completed ss w) (branchesOf ss w)" for w using Cons.IH by simp
  have e: "\<not> failing ss w \<Longrightarrow> completed ss w = branchesOf ss w" for w using Cons.IH by simp
  show ?case
  proof (cases "isNormal s")
    case True
    then show ?thesis using p e
      by (auto simp: map_mono_prefix split: node.splits option.splits)
  next
    case False
    have lp: "prefix (loopCompleted (completed ss) (failing ss) mn mk mv 0 xs)
                (loopBranches (branchesOf ss) mn mk mv 0 xs)" for mn mk mv xs
      by (rule loopCompleted_prefix) (simp_all add: p e)
    have la: "loopCompleted (completed ss) (failing ss) mn mk mv 0 xs
                = loopBranches (branchesOf ss) mn mk mv 0 xs"
      if "\<not> list_ex (\<lambda>x. \<not> wellFormedElement mk x \<or> (elementMatches mk mv x \<and> failing ss x)) xs"
      for mn mk mv xs
      by (rule loopCompleted_all) (use that e in \<open>auto simp: list_ex_iff\<close>)
    from False show ?thesis using lp la
      by (auto split: node.splits option.splits)
  qed
qed

lemma GetAll_keys:
  assumes "fst (GetAll key resource) = None"
  shows "map Key (fst (snd (GetAll key resource))) = map fst (branchesOf (GetSubKeys key) resource)"
proof -
  from GetRecurse_follows[of "GetSubKeys key" resource emptyRT "[]" "[]"] assms
  have "map (\<lambda>r. (Key r, Value r)) (fst (snd (GetAll key resource)))
          = map (keyed []) (branchesOf (GetSubKeys key) resource)"
    by (simp add: follows_def GetAll_def newResults_def emptyRT_def)
  then have "map fst (map (\<lambda>r. (Key r, Value r)) (fst (snd (GetAll key resource))))
          = map fst (map (keyed []) (branchesOf (GetSubKeys key) resource))" by simp
  then show ?thesis by (simp add: comp_def keyed_def)
qed

lemma GetAll_keys_prefix:
  "prefix (map Key (fst (snd (GetAll key resource)))) (map fst (branchesOf (GetSubKeys key) resource))"
proof -
  from GetRecurse_follows[of "GetSubKeys key" resource emptyRT "[]" "[]"]
  have "prefix (map (\<lambda>r. (Key r, Value r)) (fst (snd (GetAll key resource))))
          (map (keyed []) (branchesOf (GetSubKeys key) resource))"
    by (simp add: follows_def GetAll_def newResults_def emptyRT_def)
  then have "prefix (map fst (map (\<lambda>r. (Key r, Value r)) (fst (snd (GetAll key resource)))))
          (map fst (map (keyed []) (branchesOf (GetSubKeys key) resource)))" by (rule map_mono_prefix)
  then show ?thesis by (simp add: comp_def keyed_def)
qed

subsection \<open>C8: the length of a concrete key path\<close>

text \<open>
  C8: every result of a GetAll call that returned no error has a key path as long as the
  list of sub keys of the key.
\<close>

theorem C8_key_path_length:
  assumes "fst (GetAll key resource) = None"
  shows "\<forall>r \<in> set (fst (snd (GetAll key resource))). length (Key r) = length (GetSubKeys key)"
proof
  fix r assume "r \<in> set (fst (snd (GetAll key resource)))"
  then have "Key r \<in> set (map Key (fst (snd (GetAll key resource))))" by simp
  then have "Key r \<in> set (map fst (branchesOf (GetSubKeys key) resource))"
    by (simp only: GetAll_keys[OF assms])
  then obtain b where "b \<in> set (branchesOf (GetSubKeys key) resource)" "Key r = fst b" by auto
  then show "length (Key r) = length (GetSubKeys key)" by (simp add: branchesOf_length)
qed

theorem C8_key_path_length_witness:
  "fst (GetAll ''containers.[name=nginx].image''
          (Mapping (Some [(''containers'', Sequence
             [Mapping (Some [(''name'', Str ''nginx''), (''image'', Str ''a'')]),
              Mapping (Some [(''name'', Str ''sidecar''), (''image'', Str ''b'')])])]))) = None
   \<and> length (Key (hd (fst (snd (GetAll ''containers.[name=nginx].image''
          (Mapping (Some [(''containers'', Sequence
             [Mapping (Some [(''name'', Str ''nginx''), (''image'', Str ''a'')]),
              Mapping (Some [(''name'', Str ''sidecar''), (''image'', Str ''b'')])])])))))))
       = length (GetSubKeys ''containers.[name=nginx].image'')"
proof -
  let ?T = "Mapping (Some [(''containers'', Sequence
             [Mapping (Some [(''name'', Str ''nginx''), (''image'', Str ''a'')]),
              Mapping (Some [(''name'', Str ''sidecar''), (''image'', Str ''b'')])])])"
  have h: "fst (GetAll ''containers.[name=nginx].image'' ?T) = None" by code_simp
  have n: "fst (snd (GetAll ''containers.[name=nginx].image'' ?T)) \<noteq> []" by code_simp
  then have "hd (fst (snd (GetAll ''containers.[name=nginx].image'' ?T)))
               \<in> set (fst (snd (GetAll ''containers.[name=nginx].image'' ?T)))"
    by (rule hd_in_set)
  with C8_key_path_length[OF h] h show ?thesis by blast
qed

subsection \<open>C6: the bindings of different results\<close>

lemma newResults_same [simp]: "newResults res (e, res, st) = []"
  by (simp add: newResults_def)

lemma newResults_append [simp]: "newResults res (e, res @ new, st) = new"
  by (simp add: newResults_def)

lemma newResults_append2 [simp]: "newResults (res @ n1) (e, res @ n1 @ n2, st) = n2"
  by (simp add: newResults_def)

lemma extends_obtain:
  assumes "extends res st out"
  obtains e new ext where "out = (e, res @ new, st @ ext)"
  using assms by (cases out) (auto simp: extends_def prefix_def)

lemma predLoop_fresh:
  assumes k: "\<And>x c r s. extends r s (k x c r s) \<and> freshRefs (Matches c) r s (k x c r s)"
  shows "freshRefs None res st (predLoop k mn mk mv i xs cur res st)
       \<and> (\<forall>r \<in> set (newResults res (predLoop k mn mk mv i xs cur res st)). Matches r \<noteq> None)"
proof (induction xs arbitrary: i cur res st)
  case Nil
  show ?case by (simp add: freshRefs_def)
next
  case (Cons y ys)
  show ?case
  proof (cases "elementMatches mk mv y")
    case False
    then show ?thesis using Cons.IH[where i="Suc i" and cur=cur and res=res and st=st]
      by (simp add: predLoop_skip freshRefs_def del: predLoop.simps)
  next
    case True
    let ?st1 = "origStore cur st"
    let ?c = "cur\<lparr>Key := Key cur @ [''['' @ ToString i @ '']''], Matches := Some (length ?st1)\<rparr>"
    let ?s = "?st1 @ [AList.update mn (fieldString mk y) (?st1 ! origAddr cur st)]"
    have l1: "length st \<le> length ?st1" by (simp add: origStore_def split: option.splits)
    from k[where x=y and c="?c" and r=res and s="?s"] have ex: "extends res ?s (k y ?c res ?s)"
      and fr: "freshRefs (Some (length ?st1)) res ?s (k y ?c res ?s)" by simp_all
    from ex obtain e n1 x1 where kr: "k y ?c res ?s = (e, res @ n1, ?s @ x1)"
      by (rule extends_obtain)
    from fr kr have d1: "distinct (map Matches n1)"
      and a1: "\<And>r. r \<in> set n1 \<Longrightarrow> \<exists>a. Matches r = Some a \<and> length st \<le> a \<and> a < length (?s @ x1)"
      using l1 by (fastforce simp: freshRefs_def)+
    show ?thesis
    proof (cases e)
      case (Some err)
      with True kr d1 a1 show ?thesis
        by (auto simp: predLoop_match freshRefs_def simp del: predLoop.simps)
    next
      case None
      let ?c' = "cur\<lparr>Matches := Some (origAddr cur st)\<rparr>"
      let ?out = "predLoop k mn mk mv (Suc i) ys ?c' (res @ n1) (?s @ x1)"
      have "extends (res @ n1) (?s @ x1) ?out"
        by (rule predLoop_extends) (use k in blast)
      then obtain e2 n2 x2 where o2: "?out = (e2, (res @ n1) @ n2, (?s @ x1) @ x2)"
        by (rule extends_obtain)
      note ih = Cons.IH[where i="Suc i" and cur="?c'" and res="res @ n1" and st="?s @ x1"]
      from ih o2 have d2: "distinct (map Matches n2)"
        by (simp add: freshRefs_def)
      have a2: "\<exists>a. Matches r = Some a \<and> length (?s @ x1) \<le> a \<and> a < length ((?s @ x1) @ x2)"
        if "r \<in> set n2" for r
      proof -
        from ih o2 that have "Matches r \<noteq> None" by simp
        moreover from ih o2 that have "Matches r = None
            \<or> (\<exists>a. Matches r = Some a \<and> length (?s @ x1) \<le> a \<and> a < length ((?s @ x1) @ x2))"
          by (simp add: freshRefs_def)
        ultimately show ?thesis by auto
      qed
      have dis: "Matches ` set n1 \<inter> Matches ` set n2 = {}"
      proof (rule ccontr)
        assume "\<not> ?thesis"
        then obtain r1 r2 where "r1 \<in> set n1" "r2 \<in> set n2" "Matches r1 = Matches r2" by auto
        with a1[of r1] a2[of r2] show False by auto
      qed
      have out: "predLoop k mn mk mv i (y # ys) cur res st = (e2, res @ (n1 @ n2), (?s @ x1) @ x2)"
        using True kr None o2 by (simp add: predLoop_match del: predLoop.simps)
      have "\<exists>a. Matches r = Some a \<and> length st \<le> a \<and> a < length ((?s @ x1) @ x2)"
        if "r \<in> set (n1 @ n2)" for r
        using that a1[of r] a2[of r] l1 by auto
      then have all: "\<forall>r \<in> set (n1 @ n2).
          \<exists>a. Matches r = Some a \<and> length st \<le> a \<and> a < length ((?s @ x1) @ x2)"
        by blast
      then have nn: "\<forall>r \<in> set (n1 @ n2). Matches r \<noteq> None" by fastforce
      have dd: "distinct (map Matches (n1 @ n2))" using d1 d2 dis by simp
      show ?thesis unfolding out freshRefs_def newResults_append
        using all nn dd by (simp del: set_append map_append append_assoc)
    qed
  qed
qed

lemma GetRecurse_fresh: "freshRefs (Matches cur) res st (GetRecurse sks v cur res st)"
proof (induction sks arbitrary: v cur res st)
  case Nil
  show ?case by (simp add: freshRefs_def)
next
  case (Cons s ss)
  show ?case
  proof (cases "isNormal s")
    case True
    then show ?thesis
      using Cons.IH[where cur="cur\<lparr>Key := Key cur @ [s]\<rparr>" and res=res and st=st]
      by (auto simp: freshRefs_def split: node.splits option.splits)
  next
    case False
    have "freshRefs None res st (predLoop (GetRecurse ss) mn mk mv 0 xs cur res st)
        \<and> (\<forall>r \<in> set (newResults res (predLoop (GetRecurse ss) mn mk mv 0 xs cur res st)).
              Matches r \<noteq> None)" for mn mk mv xs
      by (rule predLoop_fresh) (simp add: GetRecurse_extends Cons.IH)
    then have "freshRefs (Matches cur) res st (predLoop (GetRecurse ss) mn mk mv 0 xs cur res st)"
      for mn mk mv xs
      by (fastforce simp: freshRefs_def)
    with False show ?thesis
      by (auto simp: freshRefs_def Let_def split: node.splits option.splits)
  qed
qed

lemma bindingsAt_append:
  "validRef st m \<Longrightarrow> bindingsAt (st @ ext) m = bindingsAt st m"
  by (cases m) (simp_all add: bindingsAt_def validRef_def nth_append)

lemma bindingsAt_orig:
  "validRef st (Matches cur) \<Longrightarrow>
   map_of (origStore cur st ! origAddr cur st) = bindingsAt st (Matches cur)
   \<and> origAddr cur st < length (origStore cur st)"
  by (cases "Matches cur") (simp_all add: bindingsAt_def validRef_def origStore_def origAddr_def)

lemma map_add_capture:
  "m(n \<mapsto> a) ++ map_of (rev caps) = m ++ map_of (rev ((n, a) # caps))"
  by simp

lemma predLoop_holds:
  assumes k: "\<And>x c r s. extends r s (k x c r s) \<and> freshRefs (Matches c) r s (k x c r s)
                \<and> (validRef s (Matches c) \<longrightarrow> holds (B x) c r s (k x c r s))"
  shows "validRef st (Matches cur) \<Longrightarrow>
         holds (loopBranches B mn mk mv i xs) cur res st (predLoop k mn mk mv i xs cur res st)"
proof (induction xs arbitrary: i cur res st)
  case Nil
  show ?case by (simp add: holds_def)
next
  case (Cons y ys)
  show ?case
  proof (cases "elementMatches mk mv y")
    case False
    then show ?thesis
      using Cons.IH[where i="Suc i" and cur=cur and res=res and st=st, OF Cons.prems]
      by (simp add: predLoop_skip holds_def del: predLoop.simps)
  next
    case True
    let ?st1 = "origStore cur st"
    let ?o = "origAddr cur st"
    let ?a = "fieldString mk y"
    let ?k = "''['' @ ToString i @ '']''"
    let ?c = "cur\<lparr>Key := Key cur @ [?k], Matches := Some (length ?st1)\<rparr>"
    let ?s = "?st1 @ [AList.update mn ?a (?st1 ! ?o)]"
    let ?A = "map (extendBranch ?k [(mn, ?a)]) (B y)"
    let ?L = "loopBranches B mn mk mv (Suc i) ys"
    have lb: "loopBranches B mn mk mv i (y # ys) = ?A @ ?L" using True by simp
    from bindingsAt_orig[OF Cons.prems]
    have bo: "map_of (?st1 ! ?o) = bindingsAt st (Matches cur)" and ov: "?o < length ?st1"
      by simp_all
    have vc: "validRef ?s (Matches ?c)" by (simp add: validRef_def)
    have bc: "bindingsAt ?s (Matches ?c) = (bindingsAt st (Matches cur))(mn \<mapsto> ?a)"
      by (simp add: bindingsAt_def update_conv' bo)
    note kk = k[where x=y and c="?c" and r=res and s="?s"]
    from kk obtain e n1 x1 where kr: "k y ?c res ?s = (e, res @ n1, ?s @ x1)"
      by (blast elim: extends_obtain)
    from kk vc have "holds (B y) ?c res ?s (k y ?c res ?s)" by blast
    with kr bc have h1: "\<forall>r \<in> set n1. \<exists>b \<in> set (B y).
        Key r = Key cur @ ?k # fst b \<and> Value r = fst (snd b)
        \<and> bindingsAt (?s @ x1) (Matches r)
            = (bindingsAt st (Matches cur))(mn \<mapsto> ?a) ++ map_of (rev (snd (snd b)))"
      by (simp add: holds_def)
    have h1': "\<exists>b \<in> set ?A. Key r = Key cur @ fst b \<and> Value r = fst (snd b)
        \<and> bindingsAt (?s @ x1) (Matches r)
            = bindingsAt st (Matches cur) ++ map_of (rev (snd (snd b)))" if "r \<in> set n1" for r
    proof -
      from h1 that obtain b where b: "b \<in> set (B y)" "Key r = Key cur @ ?k # fst b"
        "Value r = fst (snd b)"
        "bindingsAt (?s @ x1) (Matches r)
            = (bindingsAt st (Matches cur))(mn \<mapsto> ?a) ++ map_of (rev (snd (snd b)))"
        by blast
      have "extendBranch ?k [(mn, ?a)] b \<in> set ?A" using b(1) by simp
      moreover have "Key r = Key cur @ fst (extendBranch ?k [(mn, ?a)] b)"
        using b(2) by (simp add: extendBranch_def)
      moreover have "Value r = fst (snd (extendBranch ?k [(mn, ?a)] b))"
        using b(3) by (simp add: extendBranch_def)
      moreover have "bindingsAt (?s @ x1) (Matches r)
            = bindingsAt st (Matches cur) ++ map_of (rev (snd (snd (extendBranch ?k [(mn, ?a)] b))))"
      proof -
        have eb: "snd (snd (extendBranch ?k [(mn, ?a)] b)) = (mn, ?a) # snd (snd b)"
          by (simp add: extendBranch_def)
        show ?thesis unfolding eb map_add_capture[symmetric] by (rule b(4))
      qed
      ultimately show ?thesis by blast
    qed
    show ?thesis
    proof (cases e)
      case (Some err)
      have out: "predLoop k mn mk mv i (y # ys) cur res st = (Some err, res @ n1, ?s @ x1)"
        using True kr Some by (simp add: predLoop_match del: predLoop.simps)
      show ?thesis unfolding out holds_def lb using h1' by fastforce
    next
      case None
      let ?c' = "cur\<lparr>Matches := Some ?o\<rparr>"
      let ?out = "predLoop k mn mk mv (Suc i) ys ?c' (res @ n1) (?s @ x1)"
      have "extends (res @ n1) (?s @ x1) ?out"
        by (rule predLoop_extends) (use k in blast)
      then obtain e2 n2 x2 where o2: "?out = (e2, (res @ n1) @ n2, (?s @ x1) @ x2)"
        by (rule extends_obtain)
      have out: "predLoop k mn mk mv i (y # ys) cur res st = (e2, res @ (n1 @ n2), (?s @ x1) @ x2)"
        using True kr None o2 by (simp add: predLoop_match del: predLoop.simps)
      have vc': "validRef (?s @ x1) (Matches ?c')" using ov by (simp add: validRef_def)
      have bc': "bindingsAt (?s @ x1) (Matches ?c') = bindingsAt st (Matches cur)"
        using ov bo by (simp add: bindingsAt_def nth_append)
      from Cons.IH[where i="Suc i" and cur="?c'" and res="res @ n1" and st="?s @ x1", OF vc'] o2 bc'
      have h2: "\<forall>r \<in> set n2. \<exists>b \<in> set ?L. Key r = Key cur @ fst b \<and> Value r = fst (snd b)
          \<and> bindingsAt ((?s @ x1) @ x2) (Matches r)
              = bindingsAt st (Matches cur) ++ map_of (rev (snd (snd b)))"
        by (simp add: holds_def)
      have v1: "validRef (?s @ x1) (Matches r)" if "r \<in> set n1" for r
      proof -
        from kk kr that have "Matches r = Some (length ?st1)
            \<or> (\<exists>a. Matches r = Some a \<and> length ?s \<le> a \<and> a < length (?s @ x1))"
          by (simp add: freshRefs_def)
        then show ?thesis by (auto simp: validRef_def)
      qed
      have h1'': "\<exists>b \<in> set ?A. Key r = Key cur @ fst b \<and> Value r = fst (snd b)
          \<and> bindingsAt ((?s @ x1) @ x2) (Matches r)
              = bindingsAt st (Matches cur) ++ map_of (rev (snd (snd b)))" if "r \<in> set n1" for r
        using h1'[OF that] bindingsAt_append[OF v1[OF that], of x2] by simp
      have "\<exists>b \<in> set (?A @ ?L). Key r = Key cur @ fst b \<and> Value r = fst (snd b)
          \<and> bindingsAt ((?s @ x1) @ x2) (Matches r)
              = bindingsAt st (Matches cur) ++ map_of (rev (snd (snd b)))" if "r \<in> set (n1 @ n2)" for r
      proof (cases "r \<in> set n1")
        case True
        from h1''[OF this] show ?thesis by auto
      next
        case False
        with that have "r \<in> set n2" by simp
        with h2 show ?thesis by auto
      qed
      then show ?thesis unfolding out holds_def lb newResults_append
        by (simp del: set_append append_assoc)
    qed
  qed
qed

lemma holds_extend:
  assumes "holds L (cur\<lparr>Key := Key cur @ [k]\<rparr>) res st out"
  shows "holds (map (extendBranch k []) L) cur res st out"
  unfolding holds_def
proof
  fix r assume "r \<in> set (newResults res out)"
  with assms obtain b where b: "b \<in> set L" "Key r = Key cur @ k # fst b" "Value r = fst (snd b)"
    "bindingsAt (snd (snd out)) (Matches r) = bindingsAt st (Matches cur) ++ map_of (rev (snd (snd b)))"
    by (fastforce simp: holds_def)
  show "\<exists>b \<in> set (map (extendBranch k []) L). Key r = Key cur @ fst b \<and> Value r = fst (snd b)
        \<and> bindingsAt (snd (snd out)) (Matches r)
            = bindingsAt st (Matches cur) ++ map_of (rev (snd (snd b)))"
    by (rule bexI[of _ "extendBranch k [] b"]) (use b in \<open>simp_all add: extendBranch_def\<close>)
qed

lemma GetRecurse_holds:
  "validRef st (Matches cur) \<Longrightarrow>
   holds (branchesOf sks v) cur res st (GetRecurse sks v cur res st)"
proof (induction sks arbitrary: v cur res st)
  case Nil
  then show ?case by (simp add: holds_def)
next
  case (Cons s ss)
  have ih: "holds (map (extendBranch s []) (branchesOf ss w)) cur res st
              (GetRecurse ss w (cur\<lparr>Key := Key cur @ [s]\<rparr>) res st)" for w
    using Cons.IH[where v=w and cur="cur\<lparr>Key := Key cur @ [s]\<rparr>" and res=res and st=st]
      Cons.prems
    by (intro holds_extend) simp
  show ?case
  proof (cases "isNormal s")
    case True
    have nil: "holds L cur res st (e, res, st)" for L e by (simp add: holds_def)
    from True show ?thesis using ih nil
      by (simp split: node.splits option.splits)
  next
    case False
    have "holds (loopBranches (branchesOf ss) mn mk mv 0 xs) cur res st
            (predLoop (GetRecurse ss) mn mk mv 0 xs cur res st)" for mn mk mv xs
      by (rule predLoop_holds[OF _ Cons.prems])
         (simp add: GetRecurse_extends GetRecurse_fresh Cons.IH)
    moreover have "holds L cur res st (e, res, st)" for L e by (simp add: holds_def)
    ultimately show ?thesis using False
      by (simp add: Let_def split: node.splits option.splits)
  qed
qed

text \<open>
  C6: for the results and the store a GetAll call returns, with or without an error: two
  different results never hold the same bindings map, so a write through the map of one
  (the store changed at its address) leaves what the map of the other reads as it was; and
  each result is a branch of the traversal whose bindings are the captures of that branch,
  capture name to the string of the matched element's field, written in their order: every
  capture of the branch is read back when the capture names along it are distinct, and the
  later one when a name comes twice.
\<close>

theorem C6_bindings_per_branch:
  assumes "GetAll key resource = (err, results, st)" and "i < length results"
  shows "(\<forall>j. j < length results \<and> j \<noteq> i \<longrightarrow>
            Matches (results ! j) \<noteq> Matches (results ! i)
            \<and> (\<forall>a m. Matches (results ! i) = Some a \<longrightarrow>
                  bindingsAt (st[a := m]) (Matches (results ! j))
                    = bindingsAt st (Matches (results ! j))))
       \<and> (\<exists>b \<in> set (branchesOf (GetSubKeys key) resource).
            Key (results ! i) = fst b \<and> Value (results ! i) = fst (snd b)
            \<and> bindingsAt st (Matches (results ! i)) = map_of (rev (snd (snd b)))
            \<and> (distinct (map fst (snd (snd b))) \<longrightarrow>
                 (\<forall>(n, a) \<in> set (snd (snd b)). bindingsAt st (Matches (results ! i)) n = Some a)))"
proof -
  from assms(1) have g: "GetRecurse (GetSubKeys key) resource emptyRT [] [] = (err, results, st)"
    by (simp add: GetAll_def)
  have new: "newResults [] (err, results, st) = results" by (simp add: newResults_def)
  from GetRecurse_fresh[of emptyRT "[]" "[]" "GetSubKeys key" resource]
  have d: "distinct (map Matches results)"
    unfolding g freshRefs_def new by blast
  have 1: "Matches (results ! j) \<noteq> Matches (results ! i)
           \<and> (\<forall>a m. Matches (results ! i) = Some a \<longrightarrow>
                 bindingsAt (st[a := m]) (Matches (results ! j))
                   = bindingsAt st (Matches (results ! j)))"
    if j: "j < length results" "j \<noteq> i" for j
  proof -
    from d j assms(2) have ne: "Matches (results ! j) \<noteq> Matches (results ! i)"
      using nth_eq_iff_index_eq[of "map Matches results" j i] by simp
    then show ?thesis
      by (cases "Matches (results ! j)") (auto simp: bindingsAt_def)
  qed
  have v: "validRef [] (Matches emptyRT)" by (simp add: validRef_def emptyRT_def)
  from GetRecurse_holds[OF v, of "GetSubKeys key" resource "[]"] assms(2)
  obtain b where b: "b \<in> set (branchesOf (GetSubKeys key) resource)"
    "Key (results ! i) = fst b" "Value (results ! i) = fst (snd b)"
    "bindingsAt st (Matches (results ! i)) = map_of (rev (snd (snd b)))"
    unfolding g holds_def new by (fastforce simp: emptyRT_def bindingsAt_def)
  have "bindingsAt st (Matches (results ! i)) n = Some a"
    if "distinct (map fst (snd (snd b)))" "(n, a) \<in> set (snd (snd b))" for n a
    using that b(4) by (simp add: distinct_rev rev_map [symmetric])
  with b 1 show ?thesis by blast
qed

theorem C6_bindings_per_branch_witness:
  "GetAll ''containers.[c:name].image''
     (Mapping (Some [(''containers'', Sequence
        [Mapping (Some [(''name'', Str ''nginx''), (''image'', Str ''a'')]),
         Mapping (Some [(''name'', Str ''sidecar''), (''image'', Str ''b'')])])]))
   = (None,
      [\<lparr>Key = [''containers'', ''[0]'', ''image''], Value = Str ''a'', Matches = Some 1\<rparr>,
       \<lparr>Key = [''containers'', ''[1]'', ''image''], Value = Str ''b'', Matches = Some 2\<rparr>],
      [[], [(''c'', ''nginx'')], [(''c'', ''sidecar'')]])
   \<and> bindingsAt ([[], [(''c'', ''nginx'')], [(''c'', ''sidecar'')]][1 := [(''c'', ''changed'')]])
         (Some 2)
       = bindingsAt [[], [(''c'', ''nginx'')], [(''c'', ''sidecar'')]] (Some 2)"
proof -
  let ?rs = "[\<lparr>Key = [''containers'', ''[0]'', ''image''], Value = Str ''a'', Matches = Some 1\<rparr>,
       \<lparr>Key = [''containers'', ''[1]'', ''image''], Value = Str ''b'', Matches = Some 2\<rparr>]"
  have g: "GetAll ''containers.[c:name].image''
     (Mapping (Some [(''containers'', Sequence
        [Mapping (Some [(''name'', Str ''nginx''), (''image'', Str ''a'')]),
         Mapping (Some [(''name'', Str ''sidecar''), (''image'', Str ''b'')])])]))
   = (None, ?rs, [[], [(''c'', ''nginx'')], [(''c'', ''sidecar'')]])"
    by code_simp
  have i: "0 < length ?rs" by simp
  from C6_bindings_per_branch[OF g i]
  have "1 < length ?rs \<and> (1::nat) \<noteq> 0 \<longrightarrow>
          (\<forall>a m. Matches (?rs ! 0) = Some a \<longrightarrow>
             bindingsAt ([[], [(''c'', ''nginx'')], [(''c'', ''sidecar'')]][a := m]) (Matches (?rs ! 1))
               = bindingsAt [[], [(''c'', ''nginx'')], [(''c'', ''sidecar'')]] (Matches (?rs ! 1)))"
    by blast
  then have "bindingsAt ([[], [(''c'', ''nginx'')], [(''c'', ''sidecar'')]][1 := [(''c'', ''changed'')]])
         (Some 2)
       = bindingsAt [[], [(''c'', ''nginx'')], [(''c'', ''sidecar'')]] (Some 2)"
    by simp
  with g show ?thesis by blast
qed

subsection \<open>C7: what GetRecurse does with each class of segment\<close>

text \<open>The two patterns, read as the languages they denote.\<close>

lemma arrayIndexRegex_iff:
  "arrayIndexRegex s = Some ds \<longleftrightarrow> s = ''['' @ ds @ '']'' \<and> ds \<noteq> [] \<and> list_all isDigit ds"
proof
  assume "arrayIndexRegex s = Some ds"
  then obtain r where s: "s = CHR ''['' # r" and r: "r \<noteq> []" "last r = CHR '']''"
    "butlast r \<noteq> []" "list_all isDigit (butlast r)" and ds: "ds = butlast r"
    by (auto simp: arrayIndexRegex_def split: list.splits if_splits)
  from r(1,2) have "r = butlast r @ '']''" by (metis append_butlast_last_id)
  with s r ds show "s = ''['' @ ds @ '']'' \<and> ds \<noteq> [] \<and> list_all isDigit ds" by simp
next
  assume "s = ''['' @ ds @ '']'' \<and> ds \<noteq> [] \<and> list_all isDigit ds"
  then show "arrayIndexRegex s = Some ds" by (simp add: arrayIndexRegex_def)
qed

lemma complexTail_iff:
  "complexTail g1 g2 r = Some (h1, h2, h3) \<longleftrightarrow>
   h1 = g1 \<and> h2 = g2 \<and> r = h3 @ '']''
   \<and> (h3 = [] \<or> (\<exists>v. h3 = ''='' @ v \<and> v \<noteq> [] \<and> CHR 0x0A \<notin> set v))"
proof
  assume a: "complexTail g1 g2 r = Some (h1, h2, h3)"
  show "h1 = g1 \<and> h2 = g2 \<and> r = h3 @ '']''
   \<and> (h3 = [] \<or> (\<exists>v. h3 = ''='' @ v \<and> v \<noteq> [] \<and> CHR 0x0A \<notin> set v))"
  proof (cases "r = '']''")
    case True
    with a show ?thesis by (simp add: complexTail_def)
  next
    case False
    with a obtain v where r: "r = CHR ''='' # v" and v: "v \<noteq> []" "last v = CHR '']''"
      "butlast v \<noteq> []" "CHR 0x0A \<notin> set (butlast v)"
      and h: "h1 = g1" "h2 = g2" "h3 = CHR ''='' # butlast v"
      by (auto simp: complexTail_def split: list.splits if_splits)
    from v(1,2) have "v = butlast v @ '']''" by (metis append_butlast_last_id)
    with r v h show ?thesis by auto
  qed
next
  assume a: "h1 = g1 \<and> h2 = g2 \<and> r = h3 @ '']''
   \<and> (h3 = [] \<or> (\<exists>v. h3 = ''='' @ v \<and> v \<noteq> [] \<and> CHR 0x0A \<notin> set v))"
  then show "complexTail g1 g2 r = Some (h1, h2, h3)"
    by (auto simp: complexTail_def)
qed

lemma takeWhile_word:
  "list_all isWord w \<Longrightarrow> \<not> isWord c \<Longrightarrow>
   takeWhile isWord (w @ c # r) = w \<and> dropWhile isWord (w @ c # r) = c # r"
  by (induction w) auto

lemma not_word [simp]:
  "\<not> isWord CHR '']''" "\<not> isWord CHR ''=''" "\<not> isWord CHR '':''"
  by (simp_all add: isWord_def)

lemma complexSubKeyRegex_Cons:
  "complexSubKeyRegex (CHR ''['' # r) =
     (if takeWhile isWord r = [] then None
      else (case dropWhile isWord r of
              [] \<Rightarrow> None
            | d # r2 \<Rightarrow>
                if d = CHR '':'' then
                  (if takeWhile isWord r2 = [] then None
                   else complexTail (takeWhile isWord r @ '':'') (takeWhile isWord r2)
                          (dropWhile isWord r2))
                else complexTail [] (takeWhile isWord r) (dropWhile isWord r)))"
  unfolding complexSubKeyRegex_def Let_def by simp

lemma complexSubKeyRegex_bracket:
  "complexSubKeyRegex s = Some x \<Longrightarrow> \<exists>r. s = CHR ''['' # r"
  by (cases s) (auto simp: complexSubKeyRegex_def split: if_splits)

lemma complexSubKeyRegex_iff:
  "complexSubKeyRegex s = Some (g1, field, g3) \<longleftrightarrow>
   s = ''['' @ g1 @ field @ g3 @ '']'' \<and> field \<noteq> [] \<and> list_all isWord field
   \<and> (g1 = [] \<or> (\<exists>n. g1 = n @ '':'' \<and> n \<noteq> [] \<and> list_all isWord n))
   \<and> (g3 = [] \<or> (\<exists>v. g3 = ''='' @ v \<and> v \<noteq> [] \<and> CHR 0x0A \<notin> set v))"
  (is "?L \<longleftrightarrow> ?R")
proof
  assume L: ?L
  from complexSubKeyRegex_bracket[OF L] obtain r where s: "s = CHR ''['' # r" by blast
  define w1 where "w1 = takeWhile isWord r"
  define r1 where "r1 = dropWhile isWord r"
  have r: "r = w1 @ r1" by (simp add: w1_def r1_def)
  have ww: "list_all isWord w1" unfolding w1_def by (metis list_all_iff set_takeWhileD)
  from L have c: "(if w1 = [] then None
      else (case r1 of
              [] \<Rightarrow> None
            | d # r2 \<Rightarrow>
                if d = CHR '':'' then
                  (if takeWhile isWord r2 = [] then None
                   else complexTail (w1 @ '':'') (takeWhile isWord r2) (dropWhile isWord r2))
                else complexTail [] w1 r1)) = Some (g1, field, g3)"
    unfolding s complexSubKeyRegex_Cons w1_def r1_def .
  then have w1: "w1 \<noteq> []" by (auto split: if_splits)
  from c w1 obtain d r2 where r1: "r1 = d # r2" by (cases r1) auto
  show ?R
  proof (cases "d = CHR '':''")
    case True
    define w2 where "w2 = takeWhile isWord r2"
    define r3 where "r3 = dropWhile isWord r2"
    have r2: "r2 = w2 @ r3" by (simp add: w2_def r3_def)
    have ww2: "list_all isWord w2" unfolding w2_def by (metis list_all_iff set_takeWhileD)
    from c w1 r1 True have w2: "w2 \<noteq> []"
      and t: "complexTail (w1 @ '':'') w2 r3 = Some (g1, field, g3)"
      unfolding w2_def r3_def by (auto split: if_splits)
    from t have g: "g1 = w1 @ '':''" "field = w2" "r3 = g3 @ '']''"
      "g3 = [] \<or> (\<exists>v. g3 = ''='' @ v \<and> v \<noteq> [] \<and> CHR 0x0A \<notin> set v)"
      unfolding complexTail_iff by simp_all
    have "s = ''['' @ g1 @ field @ g3 @ '']''"
      unfolding s r r1 True r2 g by simp
    moreover have "g1 = [] \<or> (\<exists>n. g1 = n @ '':'' \<and> n \<noteq> [] \<and> list_all isWord n)"
      using g(1) w1 ww by blast
    ultimately show ?thesis using g(2,4) w2 ww2 by blast
  next
    case False
    with c w1 r1 have t: "complexTail [] w1 r1 = Some (g1, field, g3)"
      by (auto split: if_splits)
    then have g: "g1 = []" "field = w1" "r1 = g3 @ '']''"
      "g3 = [] \<or> (\<exists>v. g3 = ''='' @ v \<and> v \<noteq> [] \<and> CHR 0x0A \<notin> set v)"
      unfolding complexTail_iff by simp_all
    have "s = ''['' @ g1 @ field @ g3 @ '']''"
      unfolding s r g by simp
    then show ?thesis using g w1 ww by blast
  qed
next
  assume R: ?R
  then have s: "s = ''['' @ g1 @ field @ g3 @ '']''" and f: "field \<noteq> []" "list_all isWord field"
    and g1: "g1 = [] \<or> (\<exists>n. g1 = n @ '':'' \<and> n \<noteq> [] \<and> list_all isWord n)"
    and g3: "g3 = [] \<or> (\<exists>v. g3 = ''='' @ v \<and> v \<noteq> [] \<and> CHR 0x0A \<notin> set v)"
    by simp_all
  obtain c t where ct: "g3 @ '']'' = c # t" "\<not> isWord c" "c \<noteq> CHR '':''"
    using g3 by auto
  have tail: "complexTail h field (g3 @ '']'') = Some (h, field, g3)" for h
    using g3 by (simp add: complexTail_iff)
  have fw: "takeWhile isWord (field @ g3 @ '']'') = field"
    "dropWhile isWord (field @ g3 @ '']'') = g3 @ '']''"
    using takeWhile_word[OF f(2) ct(2), of t] ct(1) by simp_all
  from g1 show ?L
  proof
    assume "g1 = []"
    with s f fw ct tail show ?L
      by (simp add: complexSubKeyRegex_Cons)
  next
    assume "\<exists>n. g1 = n @ '':'' \<and> n \<noteq> [] \<and> list_all isWord n"
    then obtain n where n: "g1 = n @ '':''" "n \<noteq> []" "list_all isWord n" by blast
    have nw: "takeWhile isWord (n @ CHR '':'' # field @ g3 @ '']'') = n"
      "dropWhile isWord (n @ CHR '':'' # field @ g3 @ '']'') = CHR '':'' # field @ g3 @ '']''"
      using takeWhile_word[OF n(3), of "CHR '':''" "field @ g3 @ '']''"] by simp_all
    from s n nw f fw tail show ?L
      by (simp add: complexSubKeyRegex_Cons)
  qed
qed

lemma isDigit_val: "isDigit c \<Longrightarrow> digitVal c = int (of_char c - 48) \<and> digitVal c < 10"
  by (auto simp: isDigit_def digitVal_def)

lemma parseDigits_decimal:
  "list_all isDigit ds \<Longrightarrow>
   parseDigits 10 (int n) ds = Some (int (foldl (\<lambda>n c. 10 * n + (of_char c - 48)) n ds))"
proof (induction ds arbitrary: n)
  case Nil
  show ?case by simp
next
  case (Cons c cs)
  then have c: "isDigit c" and cs: "list_all isDigit cs" by simp_all
  from isDigit_val[OF c] have "int n * 10 + digitVal c = int (10 * n + (of_char c - 48))"
    by simp
  with Cons.IH[OF cs, of "10 * n + (of_char c - 48)"] c isDigit_val[OF c] show ?case
    by (simp add: mult.commute)
qed

lemma getIndex_canonical:
  assumes "ds \<noteq> []" "list_all isDigit ds" "hd ds \<noteq> CHR ''0'' \<or> ds = ''0''"
      and "fromDigits ds < 2 ^ 63"
  shows "getIndex (''['' @ ds @ '']'') = Some (fromDigits ds)"
proof -
  have a: "arrayIndexRegex (''['' @ ds @ '']'') = Some ds"
    using assms(1,2) by (simp add: arrayIndexRegex_iff)
  have "ToIntE ds = Some (int (fromDigits ds))"
  proof (cases "ds = ''0''")
    case True
    then show ?thesis by (simp add: ToIntE_def fromDigits_def)
  next
    case False
    with assms(1,3) obtain c cs where ds: "ds = c # cs" "c \<noteq> CHR ''0''" by (cases ds) auto
    from parseDigits_decimal[OF assms(2), of 0]
    have "parseDigits 10 0 ds = Some (int (fromDigits ds))" by (simp add: fromDigits_def)
    moreover have "int (fromDigits ds) < 2 ^ 63" using assms(4)
      by (metis of_nat_less_iff of_nat_numeral of_nat_power)
    ultimately show ?thesis using ds by (simp add: ToIntE_def)
  qed
  with a show ?thesis by (simp add: getIndex_def)
qed

text \<open>
  C7 as stated: a segment of the form \<^verbatim>\<open>[<digits>]\<close> is treated as an Index. Against
  a Mapping \<open>GetRecurse\<close> looks every normal sub key up as a literal key, this one too: the
  path \<^verbatim>\<open>[0]\<close> finds the value under the key \<^verbatim>\<open>"[0]"\<close> of a map, where an Index has
  nothing to resolve against.
\<close>

theorem C7_index_on_mapping_counterexample:
  "classify ''[0]'' = SegIndex 0
   \<and> GetAll ''[0]'' (Mapping (Some [(''[0]'', Str ''x'')]))
       = (None, [\<lparr>Key = [''[0]''], Value = Str ''x'', Matches = None\<rparr>], [])"
  by code_simp

text \<open>
  C7, as amended: what \<open>GetRecurse\<close> does with a sub key of each class.
  A Key (no \<^verbatim>\<open>[\<close>) is looked up as the literal key in a Mapping and is an error at a
  Sequence. A segment \<^verbatim>\<open>[<digits>]\<close> is looked up as a literal key in a Mapping as well; at a
  Sequence it is the index \<open>getIndex\<close> reads, which is the number the digits denote when
  they have no leading zero and the number is below \<open>2^63\<close>. A segment that contains
  \<^verbatim>\<open>[\<close>, is not of that form and matches the predicate pattern runs the predicate loop
  with its capture name (the field when there is no \<^verbatim>\<open>name:\<close>), its field and its value
  (none: every element that has the field). A segment that contains \<^verbatim>\<open>[\<close> and matches
  neither pattern is the error "the subkey is invalid".
\<close>

theorem C7_segment_classification:
  "(classify subKey = SegKey name \<longrightarrow>
      name = subKey \<and> CHR ''['' \<notin> set subKey
      \<and> GetRecurse (subKey # rest) value cur res st =
          (case value of
             Mapping valueMap \<Rightarrow>
               (case mapGet valueMap name of
                  Some v \<Rightarrow> GetRecurse rest v (cur\<lparr>Key := Key cur @ [subKey]\<rparr>) res st
                | None \<Rightarrow> (Some (SubKeyNotFound subKey), res, st))
           | Sequence valueArr \<Rightarrow> (Some (NotAnIndex subKey), res, st)
           | _ \<Rightarrow> (Some NotMapOrSlice, res, st)))
   \<and> (classify subKey = SegIndex n \<longrightarrow>
        (\<exists>ds. subKey = ''['' @ ds @ '']'' \<and> ds \<noteq> [] \<and> list_all isDigit ds \<and> n = fromDigits ds
           \<and> ((hd ds \<noteq> CHR ''0'' \<or> ds = ''0'') \<and> n < 2 ^ 63 \<longrightarrow> getIndex subKey = Some n))
      \<and> GetRecurse (subKey # rest) value cur res st =
          (case value of
             Mapping valueMap \<Rightarrow>
               (case mapGet valueMap subKey of
                  Some v \<Rightarrow> GetRecurse rest v (cur\<lparr>Key := Key cur @ [subKey]\<rparr>) res st
                | None \<Rightarrow> (Some (SubKeyNotFound subKey), res, st))
           | Sequence valueArr \<Rightarrow>
               (case getIndex subKey of
                  None \<Rightarrow> (Some (NotAnIndex subKey), res, st)
                | Some idx \<Rightarrow>
                    if idx \<ge> length valueArr then (Some (IndexOutOfRange idx), res, st)
                    else GetRecurse rest (valueArr ! idx)
                           (cur\<lparr>Key := Key cur @ [subKey]\<rparr>) res st)
           | _ \<Rightarrow> (Some NotMapOrSlice, res, st)))
   \<and> (classify subKey = SegPredicate captureName field filterValue \<longrightarrow>
        (\<exists>g1 g3. subKey = ''['' @ g1 @ field @ g3 @ '']''
           \<and> (g1 = [] \<and> captureName = field \<or> g1 = captureName @ '':'')
           \<and> (g3 = [] \<and> filterValue = None \<or> (\<exists>v. v \<noteq> [] \<and> g3 = ''='' @ v \<and> filterValue = Some v)))
      \<and> GetRecurse (subKey # rest) value cur res st =
          (case value of
             Sequence valueArr \<Rightarrow>
               predLoop (GetRecurse rest) captureName field
                 (case filterValue of None \<Rightarrow> [] | Some v \<Rightarrow> v) 0 valueArr cur res st
           | _ \<Rightarrow> (Some ExpectedSlice, res, st)))
   \<and> (classify subKey = SegInvalid \<longrightarrow>
        CHR ''['' \<in> set subKey
      \<and> GetRecurse (subKey # rest) value cur res st = (Some (InvalidSubKey subKey), res, st))"
proof (intro conjI impI)
  assume c: "classify subKey = SegKey name"
  then have a: "arrayIndexRegex subKey = None" "complexSubKeyRegex subKey = None"
    "CHR ''['' \<notin> set subKey" "name = subKey"
    by (auto simp: classify_def split: option.splits if_splits)
  show "name = subKey" by (rule a(4))
  show "CHR ''['' \<notin> set subKey" by (rule a(3))
  from a show "GetRecurse (subKey # rest) value cur res st =
          (case value of
             Mapping valueMap \<Rightarrow>
               (case mapGet valueMap name of
                  Some v \<Rightarrow> GetRecurse rest v (cur\<lparr>Key := Key cur @ [subKey]\<rparr>) res st
                | None \<Rightarrow> (Some (SubKeyNotFound subKey), res, st))
           | Sequence valueArr \<Rightarrow> (Some (NotAnIndex subKey), res, st)
           | _ \<Rightarrow> (Some NotMapOrSlice, res, st))"
    by (simp add: isNormal_def getIndex_def split: node.splits option.splits)
next
  assume c: "classify subKey = SegIndex n"
  then obtain ds where a: "arrayIndexRegex subKey = Some ds" and n: "n = fromDigits ds"
    by (auto simp: classify_def split: option.splits if_splits)
  from a have d: "subKey = ''['' @ ds @ '']''" "ds \<noteq> []" "list_all isDigit ds"
    by (simp_all add: arrayIndexRegex_iff)
  have "getIndex subKey = Some n" if "(hd ds \<noteq> CHR ''0'' \<or> ds = ''0'') \<and> n < 2 ^ 63"
    using getIndex_canonical[OF d(2,3)] that n d(1) by simp
  with d n show "\<exists>ds. subKey = ''['' @ ds @ '']'' \<and> ds \<noteq> [] \<and> list_all isDigit ds \<and> n = fromDigits ds
           \<and> ((hd ds \<noteq> CHR ''0'' \<or> ds = ''0'') \<and> n < 2 ^ 63 \<longrightarrow> getIndex subKey = Some n)"
    by blast
  from a show "GetRecurse (subKey # rest) value cur res st =
          (case value of
             Mapping valueMap \<Rightarrow>
               (case mapGet valueMap subKey of
                  Some v \<Rightarrow> GetRecurse rest v (cur\<lparr>Key := Key cur @ [subKey]\<rparr>) res st
                | None \<Rightarrow> (Some (SubKeyNotFound subKey), res, st))
           | Sequence valueArr \<Rightarrow>
               (case getIndex subKey of
                  None \<Rightarrow> (Some (NotAnIndex subKey), res, st)
                | Some idx \<Rightarrow>
                    if idx \<ge> length valueArr then (Some (IndexOutOfRange idx), res, st)
                    else GetRecurse rest (valueArr ! idx)
                           (cur\<lparr>Key := Key cur @ [subKey]\<rparr>) res st)
           | _ \<Rightarrow> (Some NotMapOrSlice, res, st))"
    by (simp add: isNormal_def)
next
  assume c: "classify subKey = SegPredicate captureName field filterValue"
  then obtain g1 g3 where a: "arrayIndexRegex subKey = None"
    and x: "complexSubKeyRegex subKey = Some (g1, field, g3)"
    and cn: "captureName = (if g1 = [] then field else butlast g1)"
    and fl: "filterValue = (if g3 = [] then None else Some (tl g3))"
    by (auto simp: classify_def split: option.splits if_splits)
  from x have sk: "subKey = ''['' @ g1 @ field @ g3 @ '']''"
    and g1: "g1 = [] \<or> (\<exists>n. g1 = n @ '':'' \<and> n \<noteq> [] \<and> list_all isWord n)"
    and g3: "g3 = [] \<or> (\<exists>v. g3 = ''='' @ v \<and> v \<noteq> [] \<and> CHR 0x0A \<notin> set v)"
    by (simp_all add: complexSubKeyRegex_iff)
  from g1 cn have g1': "g1 = [] \<and> captureName = field \<or> g1 = captureName @ '':''" by auto
  from g3 fl have g3': "g3 = [] \<and> filterValue = None \<or> (\<exists>v. v \<noteq> [] \<and> g3 = ''='' @ v \<and> filterValue = Some v)"
    by auto
  from sk g1' g3' show "\<exists>g1 g3. subKey = ''['' @ g1 @ field @ g3 @ '']''
           \<and> (g1 = [] \<and> captureName = field \<or> g1 = captureName @ '':'')
           \<and> (g3 = [] \<and> filterValue = None \<or> (\<exists>v. v \<noteq> [] \<and> g3 = ''='' @ v \<and> filterValue = Some v))"
    by blast
  from sk have nn: "\<not> isNormal subKey" using a by (simp add: isNormal_def)
  from g1' have mn: "matchNameOf g1 field = captureName"
    by (auto simp: matchNameOf_def TrimSuffix_def)
  from g3' have mv: "matchValueOf g3 = (case filterValue of None \<Rightarrow> [] | Some v \<Rightarrow> v)"
    by (auto simp: matchValueOf_def TrimPrefix_def)
  show "GetRecurse (subKey # rest) value cur res st =
          (case value of
             Sequence valueArr \<Rightarrow>
               predLoop (GetRecurse rest) captureName field
                 (case filterValue of None \<Rightarrow> [] | Some v \<Rightarrow> v) 0 valueArr cur res st
           | _ \<Rightarrow> (Some ExpectedSlice, res, st))"
    using nn x mn mv by (cases "value") (simp_all add: Let_def del: predLoop.simps(2))
next
  assume c: "classify subKey = SegInvalid"
  then have a: "arrayIndexRegex subKey = None" "complexSubKeyRegex subKey = None"
    "CHR ''['' \<in> set subKey"
    by (auto simp: classify_def split: option.splits if_splits)
  show "CHR ''['' \<in> set subKey" by (rule a(3))
  from a show "GetRecurse (subKey # rest) value cur res st = (Some (InvalidSubKey subKey), res, st)"
    by (simp add: isNormal_def)
qed

theorem C7_segment_classification_witness:
  "classify ''[c:name=nginx]'' = SegPredicate ''c'' ''name'' (Some ''nginx'')
   \<and> GetRecurse [''[c:name=nginx]''] (Num 1) emptyRT [] [] = (Some ExpectedSlice, [], [])
   \<and> classify ''[a b]'' = SegInvalid
   \<and> GetRecurse [''[a b]''] (Num 1) emptyRT [] [] = (Some (InvalidSubKey ''[a b]''), [], [])"
proof -
  have p: "classify ''[c:name=nginx]'' = SegPredicate ''c'' ''name'' (Some ''nginx'')"
    by code_simp
  have i: "classify ''[a b]'' = SegInvalid" by code_simp
  from C7_segment_classification[of "''[c:name=nginx]''" _ "[]" "Num 1" emptyRT "[]" "[]" _
      "''c''" "''name''" "Some ''nginx''"] p
  have 1: "GetRecurse [''[c:name=nginx]''] (Num 1) emptyRT [] [] = (Some ExpectedSlice, [], [])"
    by simp
  from C7_segment_classification[of "''[a b]''" _ "[]" "Num 1" emptyRT "[]" "[]"] i
  have 2: "GetRecurse [''[a b]''] (Num 1) emptyRT [] [] = (Some (InvalidSubKey ''[a b]''), [], [])"
    by simp
  from p i 1 2 show ?thesis by simp
qed

subsection \<open>C5: Get on a path without predicates\<close>

text \<open>
  On canonical sub keys \<open>Get\<close> and the plain navigation of the spec go the same way, and
  on normal sub keys \<open>GetAll\<close> returns the one result \<open>Get\<close> finds, or an error and no
  result when \<open>Get\<close> finds nothing.
\<close>

lemma getIndex_classify:
  assumes "canonical s" and "getIndex s = Some i"
  shows "classify s = SegIndex i"
proof -
  from assms(2) obtain ds n where a: "arrayIndexRegex s = Some ds" and t: "ToIntE ds = Some n"
    and i: "i = nat n" "0 \<le> n"
    by (auto simp: getIndex_def split: option.splits if_splits)
  from a have d: "ds \<noteq> []" "list_all isDigit ds" by (simp_all add: arrayIndexRegex_iff)
  from assms(1) a have c: "hd ds \<noteq> CHR ''0'' \<or> ds = ''0''" by (simp add: canonical_def)
  have "n = int (fromDigits ds)"
  proof (cases "ds = ''0''")
    case True
    with t show ?thesis by (simp add: ToIntE_def fromDigits_def split: if_splits)
  next
    case False
    with d(1) c obtain x xs where ds: "ds = x # xs" "x \<noteq> CHR ''0''" by (cases ds) auto
    from parseDigits_decimal[OF d(2), of 0]
    have "parseDigits 10 0 ds = Some (int (fromDigits ds))" by (simp add: fromDigits_def)
    with t ds show ?thesis by (simp add: ToIntE_def split: if_splits)
  qed
  with i a show ?thesis by (simp add: classify_def)
qed

lemma classify_getIndex:
  assumes "canonical s" and "classify s = SegIndex i" and "i < 2 ^ 63"
  shows "getIndex s = Some i"
proof -
  from assms(2) obtain ds where a: "arrayIndexRegex s = Some ds" and i: "i = fromDigits ds"
    by (auto simp: classify_def split: option.splits if_splits)
  from a have s: "s = ''['' @ ds @ '']''" and d: "ds \<noteq> []" "list_all isDigit ds"
    by (simp_all add: arrayIndexRegex_iff)
  from assms(1) a have c: "hd ds \<noteq> CHR ''0'' \<or> ds = ''0''" by (simp add: canonical_def)
  from getIndex_canonical[OF d c] assms(3) i s show ?thesis by simp
qed

lemma GetLoop_found_navigate:
  "list_all canonical sks \<Longrightarrow> snd (GetLoop sks v) \<Longrightarrow> navigate sks v = Inr (fst (GetLoop sks v))"
  by (induction sks v rule: GetLoop.induct)
     (auto simp: getIndex_classify split: node.splits option.splits if_splits)

lemma navigate_GetLoop:
  "list_all canonical sks \<Longrightarrow> list_all (\<lambda>s. case classify s of SegIndex n \<Rightarrow> n < 2 ^ 63 | _ \<Rightarrow> True) sks \<Longrightarrow>
   navigate sks v = Inr w \<Longrightarrow> GetLoop sks v = (w, True)"
  by (induction sks v rule: GetLoop.induct)
     (auto simp: classify_getIndex split: node.splits option.splits if_splits segment.splits)

lemma GetRecurse_normal:
  "\<forall>s\<in>set sks. isNormal s \<Longrightarrow>
   (if snd (GetLoop sks v)
    then GetRecurse sks v cur res st
           = (None, res @ [cur\<lparr>Key := Key cur @ sks, Value := fst (GetLoop sks v)\<rparr>], st)
    else fst (GetRecurse sks v cur res st) \<noteq> None \<and> snd (GetRecurse sks v cur res st) = (res, st))"
proof (induction sks arbitrary: v cur)
  case Nil
  then show ?case by simp
next
  case (Cons s ss)
  then have n: "isNormal s" and ih: "\<And>v cur. (if snd (GetLoop ss v)
    then GetRecurse ss v cur res st
           = (None, res @ [cur\<lparr>Key := Key cur @ ss, Value := fst (GetLoop ss v)\<rparr>], st)
    else fst (GetRecurse ss v cur res st) \<noteq> None \<and> snd (GetRecurse ss v cur res st) = (res, st))"
    by auto
  show ?case
  proof (cases v)
    case (Mapping m)
    show ?thesis
    proof (cases "mapGet m s")
      case None
      with Mapping n show ?thesis by simp
    next
      case (Some w)
      with Mapping n ih[of w "cur\<lparr>Key := Key cur @ [s]\<rparr>"] show ?thesis
        by (simp split: if_splits)
    qed
  next
    case (Sequence xs)
    show ?thesis
    proof (cases "getIndex s")
      case None
      with Sequence n show ?thesis by simp
    next
      case (Some i)
      with Sequence n ih[of "xs ! i" "cur\<lparr>Key := Key cur @ [s]\<rparr>"] show ?thesis
        by (simp split: if_splits)
    qed
  qed (use n in auto)
qed

text \<open>
  C5: for a path without predicates \<open>Get\<close> finds a value exactly when plain navigation hits
  no missing key, no index out of range and no type mismatch. At an index written with a
  leading zero the source does not read the number the digits denote: \<open>getIndex\<close> hands
  the digits to \<^verbatim>\<open>cast.ToIntE\<close>, which reads a numeral with a leading \<^verbatim>\<open>0\<close> in base eight.
  On a sequence of nine elements the path \<^verbatim>\<open>[010]\<close>, index ten and out of range, is found
  (at element eight), and the path \<^verbatim>\<open>[08]\<close>, index eight and in range, is not found.
\<close>

theorem C5_leading_zero_index:
  "navigate (GetSubKeys ''[010]'')
      (Sequence [Num 0, Num 1, Num 2, Num 3, Num 4, Num 5, Num 6, Num 7, Num 8])
     = Inl NavIndexOutOfRange
   \<and> Get ''[010]'' (Sequence [Num 0, Num 1, Num 2, Num 3, Num 4, Num 5, Num 6, Num 7, Num 8])
     = (Num 8, True)
   \<and> navigate (GetSubKeys ''[08]'')
      (Sequence [Num 0, Num 1, Num 2, Num 3, Num 4, Num 5, Num 6, Num 7, Num 8])
     = Inr (Num 8)
   \<and> snd (Get ''[08]'' (Sequence [Num 0, Num 1, Num 2, Num 3, Num 4, Num 5, Num 6, Num 7, Num 8]))
     = False"
  by code_simp

subsection \<open>C2: a missing key or an index out of range\<close>

text \<open>
  C2 as stated: no partial result is returned with the error. \<^verbatim>\<open>GetAll\<close> returns
  \<^verbatim>\<open>results, err\<close>, and \<^verbatim>\<open>results\<close> holds what the branches before the failing one appended:
  here the first element gives a result and the second has no \<open>image\<close>. And an index out
  of range is an error: not so where it is written with a leading zero, which the source
  reads in base eight; the index \<^verbatim>\<open>[010]\<close> is ten, and in a sequence of nine elements the
  call returns the element at eight.
\<close>

theorem C2_partial_results_counterexample:
  "GetAll ''[name].image''
     (Sequence [Mapping (Some [(''name'', Str ''a''), (''image'', Str ''x'')]),
                Mapping (Some [(''name'', Str ''b'')])])
   = (Some (SubKeyNotFound ''image''),
      [\<lparr>Key = [''[0]'', ''image''], Value = Str ''x'', Matches = Some 1\<rparr>],
      [[], [(''name'', ''a'')], [(''name'', ''b'')]])
   \<and> classify ''[010]'' = SegIndex 10
   \<and> GetAll ''[010]'' (Sequence [Num 0, Num 1, Num 2, Num 3, Num 4, Num 5, Num 6, Num 7, Num 8])
   = (None, [\<lparr>Key = [''[010]''], Value = Num 8, Matches = None\<rparr>], [])"
  by code_simp

text \<open>
  C2, as amended: if any branch of GetAll's traversal hits a missing key, or an index out
  of range that is written without a leading zero, at a normal sub key, the call returns an
  error, and the list returned with the error holds the results of the branches completed
  before the failure: their key paths and values, all of them, in the order of the
  traversal, and nothing else.
\<close>

theorem C2_missing_slot_is_error:
  assumes "reaches (GetSubKeys key) resource (subKey # rest) value"
      and "isNormal subKey"
      and "(\<exists>valueMap. value = Mapping valueMap \<and> mapGet valueMap subKey = None)
           \<or> (\<exists>valueArr idx. value = Sequence valueArr \<and> classify subKey = SegIndex idx
                  \<and> canonical subKey \<and> length valueArr \<le> idx)"
  shows "fst (GetAll key resource) \<noteq> None
         \<and> map (\<lambda>r. (Key r, Value r)) (fst (snd (GetAll key resource)))
             = map (keyed []) (completed (GetSubKeys key) resource)"
proof -
  have "fst (GetRecurse (subKey # rest) value cur res s) \<noteq> None" for cur res s
  proof -
    from assms(3) consider
      (key) valueMap where "value = Mapping valueMap" "mapGet valueMap subKey = None"
      | (index) valueArr idx where "value = Sequence valueArr" "classify subKey = SegIndex idx"
          "canonical subKey" "length valueArr \<le> idx"
      by auto
    then show ?thesis
    proof cases
      case key
      with assms(2) show ?thesis by simp
    next
      case index
      show ?thesis
      proof (cases "getIndex subKey")
        case None
        with assms(2) index(1) show ?thesis by simp
      next
        case (Some i)
        from getIndex_classify[OF index(3) Some] index(2) have "i = idx" by simp
        with assms(2) index(1,4) Some show ?thesis by simp
      qed
    qed
  qed
  from reaches_error[OF this assms(1)] have "fst (GetAll key resource) \<noteq> None"
    by (simp add: GetAll_def)
  then show ?thesis by (simp add: GetAll_completed)
qed

theorem C2_missing_slot_is_error_witness:
  "reaches (GetSubKeys ''[name].image'')
       (Sequence [Mapping (Some [(''name'', Str ''a''), (''image'', Str ''x'')]),
                  Mapping (Some [(''name'', Str ''b'')])])
       [''image''] (Mapping (Some [(''name'', Str ''b'')]))
   \<and> isNormal ''image''
   \<and> mapGet (Some [(''name'', Str ''b'')]) ''image'' = None
   \<and> fst (GetAll ''[name].image''
         (Sequence [Mapping (Some [(''name'', Str ''a''), (''image'', Str ''x'')]),
                    Mapping (Some [(''name'', Str ''b'')])])) \<noteq> None
   \<and> map (\<lambda>r. (Key r, Value r)) (fst (snd (GetAll ''[name].image''
         (Sequence [Mapping (Some [(''name'', Str ''a''), (''image'', Str ''x'')]),
                    Mapping (Some [(''name'', Str ''b'')])]))))
       = [([''[0]'', ''image''], Str ''x'')]"
proof -
  let ?T = "Sequence [Mapping (Some [(''name'', Str ''a''), (''image'', Str ''x'')]),
                      Mapping (Some [(''name'', Str ''b'')])]"
  have h1: "reaches (GetSubKeys ''[name].image'') ?T [''image''] (Mapping (Some [(''name'', Str ''b'')]))"
    by code_simp
  have h2: "isNormal ''image''" by code_simp
  have h3: "mapGet (Some [(''name'', Str ''b'')]) ''image'' = None" by (simp add: mapGet_def)
  then have h3': "(\<exists>valueMap. Mapping (Some [(''name'', Str ''b'')]) = Mapping valueMap
                      \<and> mapGet valueMap ''image'' = None)
           \<or> (\<exists>valueArr idx. Mapping (Some [(''name'', Str ''b'')]) = Sequence valueArr
                  \<and> classify ''image'' = SegIndex idx \<and> canonical ''image''
                  \<and> length valueArr \<le> idx)"
    by simp
  have c: "map (keyed []) (completed (GetSubKeys ''[name].image'') ?T) = [([''[0]'', ''image''], Str ''x'')]"
    by code_simp
  from C2_missing_slot_is_error[OF h1 h2 h3'] h1 h2 h3 c show ?thesis by simp
qed

subsection \<open>C3: the number of results\<close>

lemma matchCounts_count:
  "list_all canonical sks \<Longrightarrow> \<not> failing sks v \<Longrightarrow> matchCounts sks ms v \<Longrightarrow>
   length (branchesOf sks v) = prod_list ms"
proof (induction sks arbitrary: ms v)
  case Nil
  then show ?case by simp
next
  case (Cons s ss)
  from Cons.prems(1) have cs: "canonical s" and css: "list_all canonical ss" by simp_all
  show ?case
  proof (cases "isNormal s")
    case True
    show ?thesis
    proof (cases v)
      case (Mapping m)
      with Cons.prems True css show ?thesis
        by (auto simp: Cons.IH split: option.splits)
    next
      case (Sequence xs)
      with Cons.prems(2) True obtain i where i: "getIndex s = Some i" "i < length xs"
        and f: "\<not> failing ss (xs ! i)"
        by (auto split: option.splits if_splits)
      from getIndex_classify[OF cs i(1)] have "classify s = SegIndex i" .
      with Cons.prems(3) True Sequence i have "matchCounts ss ms (xs ! i)" by simp
      from Cons.IH[OF css f this] True Sequence i show ?thesis by simp
    qed (use Cons.prems True in auto)
  next
    case False
    with Cons.prems obtain g1 mk g3 where rx: "complexSubKeyRegex s = Some (g1, mk, g3)"
      by (cases "complexSubKeyRegex s") auto
    with Cons.prems False obtain xs where v: "v = Sequence xs" by (cases v) auto
    with Cons.prems False rx obtain m ms' where ms: "ms = m # ms'" by (cases ms) auto
    from Cons.prems False rx v ms
    have m: "length (filter (elementMatches mk (matchValueOf g3)) xs) = m"
      and a: "\<And>x. x \<in> set xs \<Longrightarrow> elementMatches mk (matchValueOf g3) x \<Longrightarrow> matchCounts ss ms' x"
      and f: "\<And>x. x \<in> set xs \<Longrightarrow> elementMatches mk (matchValueOf g3) x \<Longrightarrow> \<not> failing ss x"
      by (auto simp: list_all_iff list_ex_iff)
    have "length (loopBranches (branchesOf ss) (matchNameOf g1 mk) mk (matchValueOf g3) 0 xs)
            = length (filter (elementMatches mk (matchValueOf g3)) xs) * prod_list ms'"
      by (rule loopBranches_count) (simp add: Cons.IH css a f)
    with False rx v ms m show ?thesis by simp
  qed
qed

text \<open>
  C3 as stated: a predicate that matches \<open>m\<close> elements gives \<open>m\<close> results. The traversal
  stops at the first error and returns the error with the results it has by then. In the
  first tree the predicate \<^verbatim>\<open>[name]\<close> matches two elements and the second has no
  \<open>image\<close>: one result comes back. In the second tree the predicate matches one element,
  and the element before it is no map: no result comes back. In the third the index
  \<^verbatim>\<open>[010]\<close> leads to the element at ten, where the predicate matches two elements; the
  source reads the index in base eight and returns the one match of the element at eight.
\<close>

theorem C3_failed_branch_counterexample:
  "matchCounts (GetSubKeys ''[name].image'') [2]
     (Sequence [Mapping (Some [(''name'', Str ''a''), (''image'', Str ''x'')]),
                Mapping (Some [(''name'', Str ''b'')])])
   \<and> length (fst (snd (GetAll ''[name].image''
        (Sequence [Mapping (Some [(''name'', Str ''a''), (''image'', Str ''x'')]),
                   Mapping (Some [(''name'', Str ''b'')])])))) = 1
   \<and> matchCounts (GetSubKeys ''[name]'') [1]
        (Sequence [Num 3, Mapping (Some [(''name'', Str ''x'')])])
   \<and> GetAll ''[name]'' (Sequence [Num 3, Mapping (Some [(''name'', Str ''x'')])])
       = (Some ExpectedObject, [], [])
   \<and> matchCounts (GetSubKeys ''[010].[name]'') [2]
        (Sequence [Num 0, Num 1, Num 2, Num 3, Num 4, Num 5, Num 6, Num 7,
                   Sequence [Mapping (Some [(''name'', Str ''a'')])],
                   Num 9,
                   Sequence [Mapping (Some [(''name'', Str ''b'')]),
                             Mapping (Some [(''name'', Str ''c'')])]])
   \<and> fst (GetAll ''[010].[name]''
        (Sequence [Num 0, Num 1, Num 2, Num 3, Num 4, Num 5, Num 6, Num 7,
                   Sequence [Mapping (Some [(''name'', Str ''a'')])],
                   Num 9,
                   Sequence [Mapping (Some [(''name'', Str ''b'')]),
                             Mapping (Some [(''name'', Str ''c'')])]])) = None
   \<and> length (fst (snd (GetAll ''[010].[name]''
        (Sequence [Num 0, Num 1, Num 2, Num 3, Num 4, Num 5, Num 6, Num 7,
                   Sequence [Mapping (Some [(''name'', Str ''a'')])],
                   Num 9,
                   Sequence [Mapping (Some [(''name'', Str ''b'')]),
                             Mapping (Some [(''name'', Str ''c'')])]])))) = 1"
  by code_simp

text \<open>
  C3, as amended: for a key whose predicate sub keys match \<open>m1, ..., mk\<close> elements of their
  sequences, in every branch, and which has no index with a leading zero, a GetAll call
  that returns no error returns exactly \<open>m1 * ... * mk\<close> results; and no two results of a
  GetAll call, with or without an error, have the same concrete key path.
\<close>

theorem C3_product_of_matches:
  "(matchCounts (GetSubKeys key) ms resource \<and> list_all canonical (GetSubKeys key)
      \<and> fst (GetAll key resource) = None
      \<longrightarrow> length (fst (snd (GetAll key resource))) = prod_list ms)
   \<and> distinct (map Key (fst (snd (GetAll key resource))))"
proof
  show "matchCounts (GetSubKeys key) ms resource \<and> list_all canonical (GetSubKeys key)
      \<and> fst (GetAll key resource) = None
      \<longrightarrow> length (fst (snd (GetAll key resource))) = prod_list ms"
  proof
    assume h: "matchCounts (GetSubKeys key) ms resource \<and> list_all canonical (GetSubKeys key)
      \<and> fst (GetAll key resource) = None"
    then have nf: "\<not> failing (GetSubKeys key) resource" using GetAll_failing[of key resource] by simp
    from h have "map Key (fst (snd (GetAll key resource))) = map fst (branchesOf (GetSubKeys key) resource)"
      by (simp add: GetAll_keys)
    then have "length (fst (snd (GetAll key resource))) = length (branchesOf (GetSubKeys key) resource)"
      by (metis length_map)
    with matchCounts_count[OF _ nf] h show "length (fst (snd (GetAll key resource))) = prod_list ms"
      by simp
  qed
  show "distinct (map Key (fst (snd (GetAll key resource))))"
    using GetAll_keys_prefix[of key resource] branchesOf_distinct[of "GetSubKeys key" resource]
    by (auto simp: prefix_def)
qed

theorem C3_product_of_matches_witness:
  "matchCounts (GetSubKeys ''[app].containers.[name]'') [2, 2]
      (Sequence
        [Mapping (Some [(''app'', Str ''web''), (''containers'', Sequence
           [Mapping (Some [(''name'', Str ''nginx'')]), Mapping (Some [(''port'', Str ''80'')]),
            Mapping (Some [(''name'', Str ''sidecar'')])])]),
         Mapping (Some [(''app'', Str ''db''), (''containers'', Sequence
           [Mapping (Some [(''name'', Str ''pg'')]), Mapping (Some [(''name'', Str ''backup'')])])])])
   \<and> list_all canonical (GetSubKeys ''[app].containers.[name]'')
   \<and> fst (GetAll ''[app].containers.[name]''
      (Sequence
        [Mapping (Some [(''app'', Str ''web''), (''containers'', Sequence
           [Mapping (Some [(''name'', Str ''nginx'')]), Mapping (Some [(''port'', Str ''80'')]),
            Mapping (Some [(''name'', Str ''sidecar'')])])]),
         Mapping (Some [(''app'', Str ''db''), (''containers'', Sequence
           [Mapping (Some [(''name'', Str ''pg'')]), Mapping (Some [(''name'', Str ''backup'')])])])])) = None
   \<and> length (fst (snd (GetAll ''[app].containers.[name]''
      (Sequence
        [Mapping (Some [(''app'', Str ''web''), (''containers'', Sequence
           [Mapping (Some [(''name'', Str ''nginx'')]), Mapping (Some [(''port'', Str ''80'')]),
            Mapping (Some [(''name'', Str ''sidecar'')])])]),
         Mapping (Some [(''app'', Str ''db''), (''containers'', Sequence
           [Mapping (Some [(''name'', Str ''pg'')]), Mapping (Some [(''name'', Str ''backup'')])])])])))) = 4
   \<and> distinct (map Key (fst (snd (GetAll ''[app].containers.[name]''
      (Sequence
        [Mapping (Some [(''app'', Str ''web''), (''containers'', Sequence
           [Mapping (Some [(''name'', Str ''nginx'')]), Mapping (Some [(''port'', Str ''80'')]),
            Mapping (Some [(''name'', Str ''sidecar'')])])]),
         Mapping (Some [(''app'', Str ''db''), (''containers'', Sequence
           [Mapping (Some [(''name'', Str ''pg'')]), Mapping (Some [(''name'', Str ''backup'')])])])])))))"
proof -
  let ?T = "Sequence
        [Mapping (Some [(''app'', Str ''web''), (''containers'', Sequence
           [Mapping (Some [(''name'', Str ''nginx'')]), Mapping (Some [(''port'', Str ''80'')]),
            Mapping (Some [(''name'', Str ''sidecar'')])])]),
         Mapping (Some [(''app'', Str ''db''), (''containers'', Sequence
           [Mapping (Some [(''name'', Str ''pg'')]), Mapping (Some [(''name'', Str ''backup'')])])])]"
  have h: "matchCounts (GetSubKeys ''[app].containers.[name]'') [2, 2] ?T" by code_simp
  have c: "list_all canonical (GetSubKeys ''[app].containers.[name]'')" by code_simp
  have s: "fst (GetAll ''[app].containers.[name]'' ?T) = None" by code_simp
  from C3_product_of_matches[of "''[app].containers.[name]''" "[2, 2]" ?T] h c s
  show ?thesis by simp
qed

subsection \<open>C4 and C9: Set and SetCreatingNew\<close>

lemma GetSubKeys_Nil: "GetSubKeys [] = []"
  by (simp add: GetSubKeys_def SplitOnDotExpectInsideQuotes_def)

lemma SetLoop_Cons:
  "rest \<noteq> [] \<Longrightarrow> SetLoop (subKey # rest) newValue value =
     (case value of
        Mapping valueMap \<Rightarrow>
          (case valueMap of
             None \<Rightarrow> (value, Some (SubKeyNotPresent subKey))
           | Some entries \<Rightarrow>
               (case map_of entries subKey of
                  Some value' \<Rightarrow>
                    (case SetLoop rest newValue value' of
                       (value'', err) \<Rightarrow>
                         (Mapping (Some (AList.update subKey value'' entries)), err))
                | None \<Rightarrow> (value, Some (SubKeyNotPresent subKey))))
      | Sequence valueArr \<Rightarrow>
          (case getIndex subKey of
             Some idx \<Rightarrow>
               if idx < length valueArr then
                 (case SetLoop rest newValue (valueArr ! idx) of
                    (value'', err) \<Rightarrow> (Sequence (valueArr[idx := value'']), err))
               else (value, Some (InvalidIndex subKey))
           | None \<Rightarrow> (value, Some (InvalidIndex subKey)))
      | _ \<Rightarrow> (value, Some (ReachedScalar subKey)))"
  by (cases rest) auto

lemma SetLoop_parent_absent:
  "list_all canonical (butlast sks) \<Longrightarrow> navigate (butlast sks) T = Inl e \<Longrightarrow>
   snd (SetLoop sks v T) \<noteq> None"
proof (induction sks arbitrary: T)
  case Nil
  then show ?case by simp
next
  case (Cons s rest)
  show ?case
  proof (cases "rest = []")
    case True
    with Cons.prems show ?thesis by simp
  next
    case False
    with Cons.prems have nav: "navigate (s # butlast rest) T = Inl e"
      and cs: "canonical s" and cr: "list_all canonical (butlast rest)" by simp_all
    show ?thesis
    proof (cases T)
      case (Mapping m)
      show ?thesis
      proof (cases m)
        case None
        with Mapping False show ?thesis by (simp add: SetLoop_Cons)
      next
        case (Some entries)
        show ?thesis
        proof (cases "map_of entries s")
          case None
          with Mapping Some False show ?thesis by (simp add: SetLoop_Cons)
        next
          case (Some x)
          with nav Mapping \<open>m = Some entries\<close> have "navigate (butlast rest) x = Inl e"
            by (simp add: mapGet_def)
          from Cons.IH[OF cr this] show ?thesis using Mapping Some \<open>m = Some entries\<close> False
            by (auto simp: SetLoop_Cons split: prod.splits)
        qed
      qed
    next
      case (Sequence xs)
      show ?thesis
      proof (cases "getIndex s")
        case None
        with Sequence False show ?thesis by (simp add: SetLoop_Cons)
      next
        case (Some i)
        from getIndex_classify[OF cs Some] have cl: "classify s = SegIndex i" .
        show ?thesis
        proof (cases "i < length xs")
          case True
          with nav Sequence cl have "navigate (butlast rest) (xs ! i) = Inl e" by simp
          from Cons.IH[OF cr this] show ?thesis using Sequence Some False True
            by (auto simp: SetLoop_Cons split: prod.splits)
        next
          case False
          with Sequence Some \<open>rest \<noteq> []\<close> show ?thesis by (simp add: SetLoop_Cons)
        qed
      qed
    qed (use False in \<open>simp_all add: SetLoop_Cons\<close>)
  qed
qed

lemma SetLoop_error_unchanged:
  "snd (SetLoop sks v T) \<noteq> None \<Longrightarrow> fst (SetLoop sks v T) = T"
proof (induction sks arbitrary: T)
  case Nil
  then show ?case by simp
next
  case (Cons s rest)
  show ?case
  proof (cases "rest = []")
    case True
    with Cons.prems show ?thesis
      by (auto split: node.splits option.splits if_splits)
  next
    case False
    show ?thesis
    proof (cases T)
      case (Mapping m)
      show ?thesis
      proof (cases m)
        case None
        with Mapping False show ?thesis by (simp add: SetLoop_Cons)
      next
        case (Some entries)
        show ?thesis
        proof (cases "map_of entries s")
          case None
          with Mapping Some False show ?thesis by (simp add: SetLoop_Cons)
        next
          case (Some x)
          obtain x' err where r: "SetLoop rest v x = (x', err)" by (cases "SetLoop rest v x") auto
          with Cons.prems Mapping Some \<open>m = Some entries\<close> False have "err \<noteq> None"
            by (simp add: SetLoop_Cons)
          with Cons.IH[of x] r have "x' = x" by simp
          with r Mapping Some \<open>m = Some entries\<close> False show ?thesis
            by (simp add: SetLoop_Cons update_triv)
        qed
      qed
    next
      case (Sequence xs)
      show ?thesis
      proof (cases "getIndex s")
        case None
        with Sequence False show ?thesis by (simp add: SetLoop_Cons)
      next
        case (Some i)
        show ?thesis
        proof (cases "i < length xs")
          case True
          obtain x' err where r: "SetLoop rest v (xs ! i) = (x', err)"
            by (cases "SetLoop rest v (xs ! i)") auto
          with Cons.prems Sequence Some False True have "err \<noteq> None" by (simp add: SetLoop_Cons)
          with Cons.IH[of "xs ! i"] r have "x' = xs ! i" by simp
          with r Sequence Some False True show ?thesis by (simp add: SetLoop_Cons)
        next
          case False
          with Sequence Some \<open>rest \<noteq> []\<close> show ?thesis by (simp add: SetLoop_Cons)
        qed
      qed
    qed (use False in \<open>simp_all add: SetLoop_Cons\<close>)
  qed
qed

lemma nilOnPath_fresh: "\<not> nilOnPath sks (Some [])"
  by (induction sks "Some [] :: mapT" rule: nilOnPath.induct) auto

lemma SetCreatingNewLoop_fresh: "SetCreatingNewLoop sks v (Some []) \<noteq> Panics"
proof (induction sks)
  case Nil
  show ?case by simp
next
  case (Cons s rest)
  then show ?case by (cases rest) (auto split: run.splits)
qed

lemma SetCreatingNewLoop_panics:
  "sks \<noteq> [] \<Longrightarrow> (SetCreatingNewLoop sks v config = Panics) = nilOnPath sks config"
proof (induction sks arbitrary: config)
  case Nil
  then show ?case by simp
next
  case (Cons s rest)
  show ?case
  proof (cases "rest = []")
    case True
    then show ?thesis by (auto split: option.splits)
  next
    case False
    then obtain r rs where rest: "rest = r # rs" by (cases rest) auto
    show ?thesis
    proof (cases config)
      case None
      with rest show ?thesis by simp
    next
      case (Some entries)
      show ?thesis
      proof (cases "\<exists>valueMap. map_of entries s = Some (Mapping valueMap)")
        case True
        then obtain valueMap where m: "map_of entries s = Some (Mapping valueMap)" by auto
        from Cons.IH[OF False, of valueMap] m Some rest show ?thesis
          by (auto split: run.splits)
      next
        case False
        with Some rest SetCreatingNewLoop_fresh[of "r # rs" v] show ?thesis
          by (auto split: option.splits node.splits run.splits)
      qed
    qed
  qed
qed

lemma SetCreatingNewLoop_literalPath:
  "sks \<noteq> [] \<Longrightarrow> SetCreatingNewLoop sks v config = Returns config' \<Longrightarrow>
   literalPath sks config' = Some v"
  by (induction sks v config arbitrary: config' rule: SetCreatingNewLoop.induct)
     (auto split: node.splits option.splits run.splits simp: update_conv' mapGet_def)

lemma literalPath_GetLoop:
  "literalPath sks m = Some v \<Longrightarrow> GetLoop sks (Mapping m) = (v, True)"
  by (induction sks m rule: literalPath.induct) (auto split: node.splits option.splits)

lemma literalPath_nil: "literalPath sks None = None"
  by (induction sks "None :: mapT" rule: literalPath.induct) (auto simp: mapGet_def)

lemma SetCreatingNewLoop_level:
  assumes "rest \<noteq> []" and "\<not> nilOnPath (subKey # rest) (Some entries)"
  shows "\<exists>entries' child.
           SetCreatingNewLoop (subKey # rest) newValue (Some entries) = Returns (Some entries')
           \<and> map_of entries' subKey = Some (Mapping child)
           \<and> (\<forall>k. k \<noteq> subKey \<longrightarrow> map_of entries' k = map_of entries k)
           \<and> SetCreatingNewLoop rest newValue
               (case map_of entries subKey of Some (Mapping valueMap) \<Rightarrow> valueMap | _ \<Rightarrow> Some [])
             = Returns child"
proof -
  from assms(1) obtain r rs where rest: "rest = r # rs" by (cases rest) auto
  let ?start = "case map_of entries subKey of Some (Mapping valueMap) \<Rightarrow> valueMap | _ \<Rightarrow> Some []"
  have "\<not> nilOnPath rest ?start"
    using assms(2) rest nilOnPath_fresh[of rest]
    by (auto split: option.splits node.splits)
  with SetCreatingNewLoop_panics[OF assms(1), of newValue ?start]
  obtain child where c: "SetCreatingNewLoop rest newValue ?start = Returns child"
    by (cases "SetCreatingNewLoop rest newValue ?start") auto
  have "SetCreatingNewLoop (subKey # rest) newValue (Some entries)
          = Returns (Some (AList.update subKey (Mapping child) entries))"
    using c rest by (auto split: option.splits node.splits)
  with c show ?thesis by (auto simp: update_conv')
qed

text \<open>
  C4 as stated: where a parent segment is absent, \<open>SetCreatingNew\<close> succeeds. It writes
  into the maps it is given and never tests them for nil: with a nil map below the key
  \<open>a\<close>, or a nil map as the tree, the parent \<open>b\<close> (or \<open>a\<close>) is absent and the call panics.
  And \<open>Set\<close> fails where a parent is absent: not so at an index with a leading zero, which
  the source reads in base eight; in a sequence of nine elements the parent \<^verbatim>\<open>[010]\<close> is
  absent, and \<open>Set\<close> writes below the element at eight.
\<close>

theorem C4_nil_map_counterexample:
  "navigate (butlast (GetSubKeys ''a.b.c'')) (Mapping (Some [(''a'', Mapping None)]))
     = Inl NavMissingKey
   \<and> SetCreatingNew ''a.b.c'' (Str ''x'') (Some [(''a'', Mapping None)]) = Panics
   \<and> navigate (butlast (GetSubKeys ''a.b'')) (Mapping None) = Inl NavMissingKey
   \<and> SetCreatingNew ''a.b'' (Str ''x'') None = Panics
   \<and> navigate (butlast (GetSubKeys ''a.[010].b''))
        (Mapping (Some [(''a'', Sequence [Num 0, Num 1, Num 2, Num 3, Num 4, Num 5, Num 6, Num 7,
                                          Mapping (Some [(''b'', Num 8)])])]))
     = Inl NavIndexOutOfRange
   \<and> Set ''a.[010].b'' (Str ''x'')
        (Mapping (Some [(''a'', Sequence [Num 0, Num 1, Num 2, Num 3, Num 4, Num 5, Num 6, Num 7,
                                          Mapping (Some [(''b'', Num 8)])])]))
     = (Mapping (Some [(''a'', Sequence [Num 0, Num 1, Num 2, Num 3, Num 4, Num 5, Num 6, Num 7,
                                         Mapping (Some [(''b'', Str ''x'')])])]), None)"
  by code_simp

text \<open>
  C4, as amended: for a tree that is a map, not nil and with no nil map where the walk of
  \<open>SetCreatingNew\<close> goes through the Mappings it already holds, and a key whose sub keys
  before the last have no index with a leading zero: where plain navigation along the sub
  keys before the last fails in the tree (a parent is absent), \<open>Set\<close> returns an error and
  leaves the tree as it was, \<open>SetCreatingNew\<close> on the same key and tree returns no error,
  and \<open>Get\<close> on the tree it leaves finds the new value.
\<close>

theorem C4_set_fails_setcreatingnew_roundtrip:
  assumes "navigate (butlast (GetSubKeys key)) (Mapping config) = Inl e"
      and "list_all canonical (butlast (GetSubKeys key))"
      and "\<not> nilOnPath (GetSubKeys key) config"
  shows "snd (Set key v (Mapping config)) \<noteq> None
       \<and> fst (Set key v (Mapping config)) = Mapping config
       \<and> (\<exists>config'. SetCreatingNew key v config = Returns (config', None)
              \<and> Get key (Mapping config') = (v, True))"
proof -
  from assms(1) have "butlast (GetSubKeys key) \<noteq> []" by auto
  then have ne: "GetSubKeys key \<noteq> []" by auto
  then have k: "key \<noteq> []" using GetSubKeys_Nil by auto
  have s: "Set key v (Mapping config) = SetLoop (GetSubKeys key) v (Mapping config)"
    using ne k by (simp add: Set_def)
  have 1: "snd (Set key v (Mapping config)) \<noteq> None"
    using SetLoop_parent_absent[OF assms(2,1)] s by simp
  then have 2: "fst (Set key v (Mapping config)) = Mapping config"
    using SetLoop_error_unchanged[of "GetSubKeys key" v "Mapping config"] s by simp
  from assms(3) SetCreatingNewLoop_panics[OF ne, of v config]
  obtain config' where c: "SetCreatingNewLoop (GetSubKeys key) v config = Returns config'"
    by (cases "SetCreatingNewLoop (GetSubKeys key) v config") auto
  then have c': "SetCreatingNew key v config = Returns (config', None)"
    using ne k by (simp add: SetCreatingNew_def)
  have 3: "Get key (Mapping config') = (v, True)"
    using literalPath_GetLoop[OF SetCreatingNewLoop_literalPath[OF ne c]]
    by (simp add: Get_def)
  from 1 2 3 c' show ?thesis by simp
qed

theorem C4_set_fails_setcreatingnew_roundtrip_witness:
  "navigate (butlast (GetSubKeys ''a.b.c'')) (Mapping (Some [(''a'', Mapping (Some []))]))
     = Inl NavMissingKey
   \<and> list_all canonical (butlast (GetSubKeys ''a.b.c''))
   \<and> \<not> nilOnPath (GetSubKeys ''a.b.c'') (Some [(''a'', Mapping (Some []))])
   \<and> snd (Set ''a.b.c'' (Str ''x'') (Mapping (Some [(''a'', Mapping (Some []))]))) \<noteq> None
   \<and> fst (Set ''a.b.c'' (Str ''x'') (Mapping (Some [(''a'', Mapping (Some []))])))
       = Mapping (Some [(''a'', Mapping (Some []))])
   \<and> SetCreatingNew ''a.b.c'' (Str ''x'') (Some [(''a'', Mapping (Some []))])
       = Returns (Some [(''a'', Mapping (Some [(''b'', Mapping (Some [(''c'', Str ''x'')]))]))], None)
   \<and> Get ''a.b.c''
        (Mapping (Some [(''a'', Mapping (Some [(''b'', Mapping (Some [(''c'', Str ''x'')]))]))]))
       = (Str ''x'', True)"
proof -
  have h1: "navigate (butlast (GetSubKeys ''a.b.c'')) (Mapping (Some [(''a'', Mapping (Some []))]))
             = Inl NavMissingKey"
    by code_simp
  have h2: "list_all canonical (butlast (GetSubKeys ''a.b.c''))" by code_simp
  have h3: "\<not> nilOnPath (GetSubKeys ''a.b.c'') (Some [(''a'', Mapping (Some []))])" by code_simp
  have e: "SetCreatingNew ''a.b.c'' (Str ''x'') (Some [(''a'', Mapping (Some []))])
       = Returns (Some [(''a'', Mapping (Some [(''b'', Mapping (Some [(''c'', Str ''x'')]))]))], None)"
    by code_simp
  from C4_set_fails_setcreatingnew_roundtrip[OF h1 h2 h3, of "Str ''x''"] h1 h2 h3 e
  show ?thesis by auto
qed

text \<open>
  C9 as stated: for a key with a sub key and every config map \<open>SetCreatingNew\<close> returns
  \<^verbatim>\<open>nil\<close>. On the nil map, and on a map that holds a nil map where the sub keys lead, it
  does not return: the write into the nil map panics.
\<close>

theorem C9_nil_map_counterexample:
  "SetCreatingNew ''a'' (Str ''x'') None = Panics
   \<and> SetCreatingNew ''a.b'' (Str ''x'') (Some [(''a'', Mapping None)]) = Panics"
  by code_simp

text \<open>
  C9, as amended: \<open>SetCreatingNew\<close> returns an error exactly when the key is the empty
  string or has no sub keys. For any other key it panics exactly when its walk comes to a
  nil map, and otherwise returns \<^verbatim>\<open>nil\<close>, and in the map it leaves the sub keys lead as
  literal map keys through Mappings to the new value. At each sub key before the last the
  map keeps its other entries, and the sub key holds a Mapping: the one the rest of the
  walk leaves of the Mapping that was there, or of a new empty one where there was none or
  a value that is no Mapping (a Sequence, a scalar). At the last sub key the map keeps its
  other entries and the sub key holds the new value.
\<close>

theorem C9_setcreatingnew_errors_only_on_empty:
  "((\<exists>config' e. SetCreatingNew key newValue config = Returns (config', Some e))
       \<longleftrightarrow> key = [] \<or> GetSubKeys key = [])
   \<and> (key \<noteq> [] \<and> GetSubKeys key \<noteq> [] \<longrightarrow>
        (SetCreatingNew key newValue config = Panics \<longleftrightarrow> nilOnPath (GetSubKeys key) config)
        \<and> (\<not> nilOnPath (GetSubKeys key) config \<longrightarrow>
             (\<exists>entries'. SetCreatingNew key newValue config = Returns (Some entries', None)
                \<and> SetCreatingNewLoop (GetSubKeys key) newValue config = Returns (Some entries')
                \<and> literalPath (GetSubKeys key) (Some entries') = Some newValue)))
   \<and> (\<forall>subKey rest entries.
        rest \<noteq> [] \<and> \<not> nilOnPath (subKey # rest) (Some entries) \<longrightarrow>
        (\<exists>entries' child.
           SetCreatingNewLoop (subKey # rest) newValue (Some entries) = Returns (Some entries')
           \<and> map_of entries' subKey = Some (Mapping child)
           \<and> (\<forall>k. k \<noteq> subKey \<longrightarrow> map_of entries' k = map_of entries k)
           \<and> SetCreatingNewLoop rest newValue
               (case map_of entries subKey of Some (Mapping valueMap) \<Rightarrow> valueMap | _ \<Rightarrow> Some [])
             = Returns child))
   \<and> (\<forall>lastSubKey entries.
        \<exists>entries'.
           SetCreatingNewLoop [lastSubKey] newValue (Some entries) = Returns (Some entries')
           \<and> map_of entries' lastSubKey = Some newValue
           \<and> (\<forall>k. k \<noteq> lastSubKey \<longrightarrow> map_of entries' k = map_of entries k))"
proof -
  have a: "(\<exists>config' e. SetCreatingNew key newValue config = Returns (config', Some e))
       \<longleftrightarrow> key = [] \<or> GetSubKeys key = []"
    by (auto simp: SetCreatingNew_def Let_def split: run.splits)
  have b: "(SetCreatingNew key newValue config = Panics \<longleftrightarrow> nilOnPath (GetSubKeys key) config)
        \<and> (\<not> nilOnPath (GetSubKeys key) config \<longrightarrow>
             (\<exists>entries'. SetCreatingNew key newValue config = Returns (Some entries', None)
                \<and> SetCreatingNewLoop (GetSubKeys key) newValue config = Returns (Some entries')
                \<and> literalPath (GetSubKeys key) (Some entries') = Some newValue))"
    if k: "key \<noteq> []" and ne: "GetSubKeys key \<noteq> []"
  proof -
    have p: "(SetCreatingNew key newValue config = Panics) = nilOnPath (GetSubKeys key) config"
      using SetCreatingNewLoop_panics[OF ne, of newValue config] k ne
      by (auto simp: SetCreatingNew_def Let_def split: run.splits)
    have "\<exists>entries'. SetCreatingNew key newValue config = Returns (Some entries', None)
                \<and> SetCreatingNewLoop (GetSubKeys key) newValue config = Returns (Some entries')
                \<and> literalPath (GetSubKeys key) (Some entries') = Some newValue"
      if n: "\<not> nilOnPath (GetSubKeys key) config"
    proof -
      from n SetCreatingNewLoop_panics[OF ne, of newValue config]
      obtain config' where c: "SetCreatingNewLoop (GetSubKeys key) newValue config = Returns config'"
        by (cases "SetCreatingNewLoop (GetSubKeys key) newValue config") auto
      from SetCreatingNewLoop_literalPath[OF ne c]
      have l: "literalPath (GetSubKeys key) config' = Some newValue" .
      have "config' \<noteq> None" using l literalPath_nil[of "GetSubKeys key"] by (cases config') auto
      then obtain entries' where "config' = Some entries'" by auto
      with c l k ne show ?thesis by (simp add: SetCreatingNew_def)
    qed
    with p show ?thesis by simp
  qed
  have c: "\<exists>entries' child.
           SetCreatingNewLoop (subKey # rest) newValue (Some entries) = Returns (Some entries')
           \<and> map_of entries' subKey = Some (Mapping child)
           \<and> (\<forall>k. k \<noteq> subKey \<longrightarrow> map_of entries' k = map_of entries k)
           \<and> SetCreatingNewLoop rest newValue
               (case map_of entries subKey of Some (Mapping valueMap) \<Rightarrow> valueMap | _ \<Rightarrow> Some [])
             = Returns child"
    if "rest \<noteq> [] \<and> \<not> nilOnPath (subKey # rest) (Some entries)" for subKey rest entries
    using that SetCreatingNewLoop_level[of rest subKey entries newValue] by simp
  have d: "\<exists>entries'.
           SetCreatingNewLoop [lastSubKey] newValue (Some entries) = Returns (Some entries')
           \<and> map_of entries' lastSubKey = Some newValue
           \<and> (\<forall>k. k \<noteq> lastSubKey \<longrightarrow> map_of entries' k = map_of entries k)"
    for lastSubKey entries
    by (simp add: update_conv')
  from a b c d show ?thesis by blast
qed

theorem C9_setcreatingnew_errors_only_on_empty_witness:
  "''a.b'' \<noteq> [] \<and> GetSubKeys ''a.b'' = [''a'', ''b'']
   \<and> \<not> nilOnPath [''a'', ''b''] (Some [(''a'', Sequence [Num 1]), (''c'', Num 2)])
   \<and> SetCreatingNew ''a.b'' (Str ''x'') (Some [(''a'', Sequence [Num 1]), (''c'', Num 2)])
       = Returns (Some [(''a'', Mapping (Some [(''b'', Str ''x'')])), (''c'', Num 2)], None)
   \<and> literalPath [''a'', ''b'']
         (Some [(''a'', Mapping (Some [(''b'', Str ''x'')])), (''c'', Num 2)])
       = Some (Str ''x'')
   \<and> SetCreatingNewLoop [''a'', ''b''] (Str ''x'') (Some [(''a'', Sequence [Num 1]), (''c'', Num 2)])
       = Returns (Some [(''a'', Mapping (Some [(''b'', Str ''x'')])), (''c'', Num 2)])
   \<and> SetCreatingNewLoop [''b''] (Str ''x'') (Some []) = Returns (Some [(''b'', Str ''x'')])"
proof -
  have k: "GetSubKeys ''a.b'' = [''a'', ''b'']" by code_simp
  have n: "''a.b'' \<noteq> []" by simp
  have p: "\<not> nilOnPath [''a'', ''b''] (Some [(''a'', Sequence [Num 1]), (''c'', Num 2)])"
    by code_simp
  have e: "SetCreatingNew ''a.b'' (Str ''x'') (Some [(''a'', Sequence [Num 1]), (''c'', Num 2)])
       = Returns (Some [(''a'', Mapping (Some [(''b'', Str ''x'')])), (''c'', Num 2)], None)"
    by code_simp
  have l: "SetCreatingNewLoop [''b''] (Str ''x'') (Some []) = Returns (Some [(''b'', Str ''x'')])"
    by code_simp
  from C9_setcreatingnew_errors_only_on_empty
         [of "''a.b''" "Str ''x''" "Some [(''a'', Sequence [Num 1]), (''c'', Num 2)]"]
    k n p e l
  show ?thesis by auto
qed

end
